theory Spec2Isabelle
  imports Complex_Main "HOL-Library.Multiset"
begin

section \<open>JavaScript numbers, the clock, timers and observable calls\<close>

text \<open>
  The two classes of \<^verbatim>\<open>input-buffer.mjs\<close> and \<^verbatim>\<open>adaptive-renderer.mjs\<close> are
  embedded as records with explicit state passing. What they share with the rest of the
  JavaScript process is collected in a record \<open>world\<close>:
  \<^item> the clock: \<^verbatim>\<open>Date.now()\<close> returns integer milliseconds; the k-th reading of the
    process is \<open>clock w k\<close>, and every call consumes one reading;
  \<^item> the timers armed by \<^verbatim>\<open>setTimeout\<close> and not yet fired or cleared;
  \<^item> the calls made to code outside the two classes: the configured
    \<^verbatim>\<open>onDelayDetected\<close> callback and the render functions.

  Timestamps, thresholds and durations are integers (milliseconds). The averages are
  quotients of them; they are computed over the rationals, so the rounding of IEEE doubles
  is not modelled, but the special values of a division by zero are.
\<close>

datatype jsnum = Finite rat | PosInfinity | NegInfinity | NaN

text \<open>\<^verbatim>\<open>x / y\<close> on finite operands, \<open>y\<close> a count (so a zero divisor is \<open>+0\<close>).\<close>

definition js_div :: "rat \<Rightarrow> rat \<Rightarrow> jsnum" where
  "js_div x y =
     (if y \<noteq> 0 then Finite (x / y)
      else if x = 0 then NaN
      else if 0 < x then PosInfinity
      else NegInfinity)"

text \<open>\<^verbatim>\<open>v || 0\<close>: the falsy numbers are \<open>0\<close> and \<open>NaN\<close>.\<close>

definition js_or_zero :: "jsnum \<Rightarrow> jsnum" where
  "js_or_zero v =
     (case v of
        Finite r \<Rightarrow> (if r = 0 then Finite 0 else Finite r)
      | NaN \<Rightarrow> Finite 0
      | PosInfinity \<Rightarrow> PosInfinity
      | NegInfinity \<Rightarrow> NegInfinity)"

text \<open>The three closures that the source hands to \<^verbatim>\<open>setTimeout\<close>.\<close>

datatype timer_kind =
    TypingModeOff   \<comment> \<open>\<^verbatim>\<open>InputBuffer.push\<close>: \<^verbatim>\<open>this.typingMode = false\<close>\<close>
  | IdleTimer       \<comment> \<open>\<^verbatim>\<open>AdaptiveRenderer.onInput\<close>: leave typing, \<^verbatim>\<open>flushDeferred()\<close>\<close>
  | MaxDeferTimer   \<comment> \<open>\<^verbatim>\<open>AdaptiveRenderer.deferRender\<close>: \<^verbatim>\<open>flushDeferred()\<close>\<close>

record timer =
  handle :: nat
  callback :: timer_kind
  delay_ms :: int

text \<open>The argument object of \<^verbatim>\<open>onDelayDetected\<close>.\<close>

record delayInfo =
  info_delay :: int
  bufferedChars :: nat
  timestamp :: int

record world =
  clock :: "nat \<Rightarrow> int"
  reads :: nat
  next_handle :: nat
  pending :: "timer list"
  notified :: "delayInfo list"
  rendered :: "nat list"

definition Date_now :: "world \<Rightarrow> int \<times> world" where
  "Date_now w = (clock w (reads w), w\<lparr>reads := Suc (reads w)\<rparr>)"

definition setTimeout :: "timer_kind \<Rightarrow> int \<Rightarrow> world \<Rightarrow> nat \<times> world" where
  "setTimeout cb ms w =
     (next_handle w,
      w\<lparr>next_handle := Suc (next_handle w),
        pending := pending w @ [\<lparr>handle = next_handle w, callback = cb, delay_ms = ms\<rparr>]\<rparr>)"

definition clearTimeout :: "nat \<Rightarrow> world \<Rightarrow> world" where
  "clearTimeout h w = w\<lparr>pending := filter (\<lambda>t. handle t \<noteq> h) (pending w)\<rparr>"

text \<open>
  The configured callback is code of the caller; its invocation is recorded. It is taken
  to return normally, as the default \<^verbatim>\<open>() => {}\<close> does.
\<close>

definition onDelayDetected :: "delayInfo \<Rightarrow> world \<Rightarrow> world" where
  "onDelayDetected i w = w\<lparr>notified := notified w @ [i]\<rparr>"

definition new_world :: "(nat \<Rightarrow> int) \<Rightarrow> world" where
  "new_world clk =
     \<lparr>clock = clk, reads = 0, next_handle = 1, pending = [], notified = [], rendered = []\<rparr>"

text \<open>
  What can be thrown: the exception of a render function, and the \<^verbatim>\<open>TypeError\<close> of
  reading a property of \<^verbatim>\<open>null\<close>.
\<close>

datatype exn = Thrown nat | TypeError

text \<open>
  An argument or a property that may be missing: \<^verbatim>\<open>undefined\<close> (also a property that
  is absent), \<^verbatim>\<open>null\<close>, or a value. \<^verbatim>\<open>a ?? d\<close> is \<open>d\<close> for the first two and the
  value otherwise.
\<close>

datatype 'a nullable = Undefined | Null | Given 'a

definition nullish :: "'a nullable \<Rightarrow> 'a \<Rightarrow> 'a" where
  "nullish a d = (case a of Undefined \<Rightarrow> d | Null \<Rightarrow> d | Given v \<Rightarrow> v)"

section \<open>InputBuffer (input-buffer.mjs)\<close>

record entry =
  char :: string
  receivedAt :: int
  queuedAt :: int

record bufferMetrics =
  totalInputs :: nat
  delayEvents :: nat
  maxDelay :: int
  avgProcessingTime :: jsnum
  totalProcessingTime :: int

record InputBuffer =
  buffer :: "entry list"
  lastProcessTime :: int
  delayThresholdMs :: int
  metrics :: bufferMetrics
  typingMode :: bool
  lastInputTime :: int
  typingModeTimeout :: "nat option"
  typingModeDelayMs :: int

record bufferOptions =
  opt_delayThresholdMs :: "int nullable"
  opt_typingModeDelayMs :: "int nullable"

definition zero_metrics :: bufferMetrics where
  "zero_metrics =
     \<lparr>totalInputs = 0, delayEvents = 0, maxDelay = 0,
      avgProcessingTime = Finite 0, totalProcessingTime = 0\<rparr>"

definition InputBuffer_constructor :: "bufferOptions \<Rightarrow> world \<Rightarrow> InputBuffer \<times> world" where
  "InputBuffer_constructor options w =
     (let (t, w1) = Date_now w
      in (\<lparr>buffer = [],
           lastProcessTime = t,
           delayThresholdMs = nullish (opt_delayThresholdMs options) 50,
           metrics = zero_metrics,
           typingMode = False,
           lastInputTime = 0,
           typingModeTimeout = None,
           typingModeDelayMs = nullish (opt_typingModeDelayMs options) 100\<rparr>, w1))"

text \<open>
  \<^verbatim>\<open>new InputBuffer(options)\<close>. The default \<^verbatim>\<open>options = {}\<close> of the parameter takes
  the place of \<^verbatim>\<open>undefined\<close> only. For \<^verbatim>\<open>null\<close> the body runs up to
  \<^verbatim>\<open>options.delayThresholdMs\<close>, after the reading of the clock, and that throws a
  \<^verbatim>\<open>TypeError\<close>. The body has no \<^verbatim>\<open>throw\<close> of its own and looks at no value.
\<close>

definition new_InputBuffer ::
  "bufferOptions nullable \<Rightarrow> world \<Rightarrow> (exn + InputBuffer) \<times> world" where
  "new_InputBuffer arg w =
     (case arg of
        Undefined \<Rightarrow>
          (let (b, w1) =
                 InputBuffer_constructor
                   \<lparr>opt_delayThresholdMs = Undefined, opt_typingModeDelayMs = Undefined\<rparr> w
           in (Inr b, w1))
      | Null \<Rightarrow> (let (t, w1) = Date_now w in (Inl TypeError, w1))
      | Given options \<Rightarrow> (let (b, w1) = InputBuffer_constructor options w in (Inr b, w1)))"

text \<open>
  The data given to \<^verbatim>\<open>push\<close>: a string, split into its characters, or any other value,
  kept as one unit. A unit is represented by the text that \<^verbatim>\<open>join('')\<close> gives it.
\<close>

datatype pushData = Str string | Other string

definition split_chars :: "pushData \<Rightarrow> string list" where
  "split_chars d = (case d of Str s \<Rightarrow> map (\<lambda>c. [c]) s | Other v \<Rightarrow> [v])"

fun push_loop :: "string list \<Rightarrow> int \<Rightarrow> InputBuffer \<times> world \<Rightarrow> InputBuffer \<times> world" where
  "push_loop [] ts (b, w) = (b, w)"
| "push_loop (c # cs) ts (b, w) =
     (let (q, w1) = Date_now w
      in push_loop cs ts
           (b\<lparr>buffer := buffer b @ [\<lparr>char = c, receivedAt = ts, queuedAt = q\<rparr>]\<rparr>, w1))"

definition push :: "pushData \<Rightarrow> int option \<Rightarrow> InputBuffer \<times> world \<Rightarrow> InputBuffer \<times> world" where
  "push d ts_opt bw =
     (let (b, w) = bw;
          (ts, w0) = (case ts_opt of None \<Rightarrow> Date_now w | Some t \<Rightarrow> (t, w));
          chars = split_chars d;
          (b1, w1) = push_loop chars ts (b, w0);
          (t, w2) = Date_now w1;
          b2 = b1\<lparr>lastInputTime := t,
                  metrics := (metrics b1)\<lparr>totalInputs := totalInputs (metrics b1) + length chars\<rparr>\<rparr>;
          b3 = (if \<not> typingMode b2 then b2\<lparr>typingMode := True\<rparr> else b2);
          w3 = (case typingModeTimeout b3 of Some h \<Rightarrow> clearTimeout h w2 | None \<Rightarrow> w2);
          (h, w4) = setTimeout TypingModeOff (typingModeDelayMs b3) w3
      in (b3\<lparr>typingModeTimeout := Some h\<rparr>, w4))"

fun pushBatch :: "(pushData \<times> int option) list \<Rightarrow> InputBuffer \<times> world \<Rightarrow> InputBuffer \<times> world" where
  "pushBatch [] bw = bw"
| "pushBatch ((d, ts) # inputs) bw = pushBatch inputs (push d ts bw)"

text \<open>
  The methods \<^verbatim>\<open>isTyping()\<close> and \<^verbatim>\<open>size()\<close>; their names are taken by a field of
  the renderer and by a constant of HOL.
\<close>

definition isTyping_buffer :: "InputBuffer \<Rightarrow> bool" where
  "isTyping_buffer b = typingMode b"

definition size_buffer :: "InputBuffer \<Rightarrow> nat" where
  "size_buffer b = length (buffer b)"

record flushResult =
  chars :: string
  delay :: int
  avgQueueTime :: jsnum
  count :: nat

definition flush :: "InputBuffer \<times> world \<Rightarrow> flushResult \<times> InputBuffer \<times> world" where
  "flush bw =
     (let (b, w) = bw;
          (now, w1) = Date_now w;
          processStart = now;
          delay = now - lastProcessTime b;
          (b1, w2) =
            (if delay > delayThresholdMs b \<and> length (buffer b) > 0
             then (b\<lparr>metrics := (metrics b)
                      \<lparr>delayEvents := delayEvents (metrics b) + 1,
                       maxDelay := max (maxDelay (metrics b)) delay\<rparr>\<rparr>,
                   onDelayDetected
                     \<lparr>info_delay = delay, bufferedChars = length (buffer b), timestamp = now\<rparr> w1)
             else (b, w1));
          chars = concat (map char (buffer b1));
          queueTimes = map (\<lambda>e. queuedAt e - receivedAt e) (buffer b1);
          avgQueueTime =
            (if length queueTimes > 0
             then js_div (of_int (foldl (+) 0 queueTimes)) (of_nat (length queueTimes))
             else Finite 0);
          b2 = b1\<lparr>buffer := [], lastProcessTime := now\<rparr>;
          (t, w3) = Date_now w2;
          processingTime = t - processStart;
          total = totalProcessingTime (metrics b2) + processingTime;
          b3 = b2\<lparr>metrics := (metrics b2)
                  \<lparr>totalProcessingTime := total,
                   avgProcessingTime :=
                     js_or_zero (js_div (of_int total) (of_nat (totalInputs (metrics b2))))\<rparr>\<rparr>
      in (\<lparr>chars = chars, delay = delay, avgQueueTime = avgQueueTime, count = length chars\<rparr>,
          b3, w3))"

definition peek :: "InputBuffer \<Rightarrow> string" where
  "peek b = concat (map char (buffer b))"

definition getMetrics :: "InputBuffer \<Rightarrow> bufferMetrics" where
  "getMetrics b = metrics b"

definition resetMetrics :: "InputBuffer \<Rightarrow> InputBuffer" where
  "resetMetrics b = b\<lparr>metrics := zero_metrics\<rparr>"

text \<open>The closure armed by \<^verbatim>\<open>push\<close>, run when its timer fires.\<close>

definition typingModeOff :: "InputBuffer \<Rightarrow> InputBuffer" where
  "typingModeOff b = b\<lparr>typingMode := False\<rparr>"

section \<open>AdaptiveRenderer (adaptive-renderer.mjs)\<close>

text \<open>
  A render function is code of the caller. It is identified by a number; running it is
  recorded in \<open>rendered\<close>, and it either returns or throws. It does not call back into
  the renderer.
\<close>

record renderFunction =
  fn_id :: nat
  fn_throws :: bool

definition call_renderFn :: "renderFunction \<Rightarrow> world \<Rightarrow> exn option \<times> world" where
  "call_renderFn f w =
     ((if fn_throws f then Some (Thrown (fn_id f)) else None),
      w\<lparr>rendered := rendered w @ [fn_id f]\<rparr>)"

text \<open>The three priorities that \<^verbatim>\<open>requestRender\<close> documents.\<close>

datatype priority = High | Normal | Low

text \<open>Fields that share a name with one of InputBuffer carry the suffix \<open>R\<close>.\<close>

record deferredEntry =
  renderFn :: renderFunction
  priority :: priority
  queuedAtR :: int

record renderMetrics =
  totalRenders :: nat
  deferredRenders :: nat
  immediateRenders :: nat
  avgRenderTime :: rat
  maxRenderTime :: int

record AdaptiveRenderer =
  idleThresholdMs :: int
  maxDeferMs :: int
  minRenderIntervalMs :: int
  lastInputTimeR :: int
  lastRenderTime :: int
  deferredRender :: "nat option"
  renderQueue :: "deferredEntry list"
  isTyping :: bool
  metricsR :: renderMetrics
  typingTimeout :: "nat option"

record rendererOptions =
  opt_idleThresholdMs :: "int nullable"
  opt_maxDeferMs :: "int nullable"
  opt_minRenderIntervalMs :: "int nullable"

text \<open>\<^verbatim>\<open>typingTimeout\<close> is not assigned by the constructor: it starts undefined.\<close>

definition AdaptiveRenderer_constructor :: "rendererOptions \<Rightarrow> AdaptiveRenderer" where
  "AdaptiveRenderer_constructor options =
     \<lparr>idleThresholdMs = nullish (opt_idleThresholdMs options) 50,
      maxDeferMs = nullish (opt_maxDeferMs options) 200,
      minRenderIntervalMs = nullish (opt_minRenderIntervalMs options) 100,
      lastInputTimeR = 0,
      lastRenderTime = 0,
      deferredRender = None,
      renderQueue = [],
      isTyping = False,
      metricsR =
        \<lparr>totalRenders = 0, deferredRenders = 0, immediateRenders = 0,
         avgRenderTime = 0, maxRenderTime = 0\<rparr>,
      typingTimeout = None\<rparr>"

text \<open>
  \<^verbatim>\<open>new AdaptiveRenderer(options)\<close>, with the same default; for \<^verbatim>\<open>null\<close> the first
  statement, which reads \<^verbatim>\<open>options.idleThresholdMs\<close>, throws.
\<close>

definition new_AdaptiveRenderer :: "rendererOptions nullable \<Rightarrow> exn + AdaptiveRenderer" where
  "new_AdaptiveRenderer arg =
     (case arg of
        Undefined \<Rightarrow>
          Inr (AdaptiveRenderer_constructor
                 \<lparr>opt_idleThresholdMs = Undefined, opt_maxDeferMs = Undefined,
                  opt_minRenderIntervalMs = Undefined\<rparr>)
      | Null \<Rightarrow> Inl TypeError
      | Given options \<Rightarrow> Inr (AdaptiveRenderer_constructor options))"

text \<open>
  \<^verbatim>\<open>try { renderFn() } finally { ... }\<close>: the block after \<^verbatim>\<open>finally\<close> runs on both
  exits and the completion of \<^verbatim>\<open>renderFn()\<close> is the completion of the call. The divisor
  \<^verbatim>\<open>totalRenders\<close> has just been incremented, so the division is an ordinary one.
\<close>

definition executeRender ::
  "renderFunction \<Rightarrow> AdaptiveRenderer \<times> world \<Rightarrow> exn option \<times> AdaptiveRenderer \<times> world" where
  "executeRender f aw =
     (let (a, w) = aw;
          (start, w1) = Date_now w;
          (r, w2) = call_renderFn f w1;
          (t1, w3) = Date_now w2;
          duration = t1 - start;
          (t2, w4) = Date_now w3;
          a1 = a\<lparr>lastRenderTime := t2\<rparr>;
          a2 = a1\<lparr>metricsR := (metricsR a1)\<lparr>totalRenders := totalRenders (metricsR a1) + 1\<rparr>\<rparr>;
          a3 = a2\<lparr>metricsR := (metricsR a2)\<lparr>immediateRenders := immediateRenders (metricsR a2) + 1\<rparr>\<rparr>;
          a4 = a3\<lparr>metricsR := (metricsR a3)\<lparr>maxRenderTime := max (maxRenderTime (metricsR a3)) duration\<rparr>\<rparr>;
          a5 = a4\<lparr>metricsR := (metricsR a4)
                  \<lparr>avgRenderTime :=
                     (avgRenderTime (metricsR a4) * of_nat (totalRenders (metricsR a4) - 1)
                        + of_int duration)
                     / of_nat (totalRenders (metricsR a4))\<rparr>\<rparr>
      in (r, a5, w4))"

definition deferRender ::
  "renderFunction \<Rightarrow> priority \<Rightarrow> AdaptiveRenderer \<times> world \<Rightarrow> AdaptiveRenderer \<times> world" where
  "deferRender f p aw =
     (let (a, w) = aw;
          (q, w1) = Date_now w;
          a1 = a\<lparr>renderQueue := renderQueue a @ [\<lparr>renderFn = f, priority = p, queuedAtR = q\<rparr>]\<rparr>;
          a2 = a1\<lparr>metricsR := (metricsR a1)\<lparr>deferredRenders := deferredRenders (metricsR a1) + 1\<rparr>\<rparr>
      in (case deferredRender a2 of
            None \<Rightarrow>
              (let (h, w2) = setTimeout MaxDeferTimer (maxDeferMs a2) w1
               in (a2\<lparr>deferredRender := Some h\<rparr>, w2))
          | Some _ \<Rightarrow> (a2, w1)))"

text \<open>
  \<^verbatim>\<open>requestRender(renderFn, options)\<close>: of \<open>options\<close> only the property
  \<^verbatim>\<open>priority\<close> is read; it is \<open>Undefined\<close> also when \<open>options\<close> is left out.
\<close>

definition requestRender ::
  "renderFunction \<Rightarrow> priority nullable \<Rightarrow> AdaptiveRenderer \<times> world
     \<Rightarrow> exn option \<times> AdaptiveRenderer \<times> world" where
  "requestRender f p_opt aw =
     (let (a, w) = aw;
          p = nullish p_opt Normal;
          (now, w1) = Date_now w
      in if p = High then executeRender f (a, w1)
         else
           (let timeSinceInput = now - lastInputTimeR a;
                timeSinceRender = now - lastRenderTime a
            in if isTyping a \<and> timeSinceInput < idleThresholdMs a
               then (None, deferRender f p (a, w1))
               else executeRender f (a, w1)))"

text \<open>The comparator handed to \<^verbatim>\<open>Array.prototype.sort\<close> in \<^verbatim>\<open>flushDeferred\<close>.\<close>

definition priorityOrder :: "priority \<Rightarrow> int" where
  "priorityOrder p = (case p of High \<Rightarrow> 0 | Normal \<Rightarrow> 1 | Low \<Rightarrow> 2)"

definition compareEntries :: "deferredEntry \<Rightarrow> deferredEntry \<Rightarrow> int" where
  "compareEntries a b =
     (let priorityDiff = priorityOrder (priority a) - priorityOrder (priority b)
      in if priorityDiff \<noteq> 0 then priorityDiff else queuedAtR a - queuedAtR b)"

text \<open>
  \<^verbatim>\<open>Array.prototype.sort\<close> with a comparator is a stable sort: an element moves in front
  of another one only when the comparator puts it strictly before. It is modelled as a
  stable insertion sort; the theorems below characterise its result by the comparator
  alone.
\<close>

fun js_insort :: "('a \<Rightarrow> 'a \<Rightarrow> int) \<Rightarrow> 'a \<Rightarrow> 'a list \<Rightarrow> 'a list" where
  "js_insort cmp x [] = [x]"
| "js_insort cmp x (y # ys) = (if cmp x y \<le> 0 then x # y # ys else y # js_insort cmp x ys)"

fun js_sort :: "('a \<Rightarrow> 'a \<Rightarrow> int) \<Rightarrow> 'a list \<Rightarrow> 'a list" where
  "js_sort cmp [] = []"
| "js_sort cmp (x # xs) = js_insort cmp x (js_sort cmp xs)"

text \<open>The loop of \<^verbatim>\<open>flushDeferred\<close>: a throwing render function ends it.\<close>

fun executeAll ::
  "deferredEntry list \<Rightarrow> AdaptiveRenderer \<times> world \<Rightarrow> exn option \<times> AdaptiveRenderer \<times> world" where
  "executeAll [] (a, w) = (None, a, w)"
| "executeAll (e # es) (a, w) =
     (case executeRender (renderFn e) (a, w) of
        (Some x, a1, w1) \<Rightarrow> (Some x, a1, w1)
      | (None, a1, w1) \<Rightarrow> executeAll es (a1, w1))"

text \<open>
  The queue is sorted in place before the loop, and emptied after it: when a render
  function throws, the assignment \<^verbatim>\<open>this.renderQueue = []\<close> is not reached.
\<close>

definition flushDeferred ::
  "AdaptiveRenderer \<times> world \<Rightarrow> exn option \<times> AdaptiveRenderer \<times> world" where
  "flushDeferred aw =
     (let (a, w) = aw;
          (a1, w1) =
            (case deferredRender a of
               Some h \<Rightarrow> (a\<lparr>deferredRender := None\<rparr>, clearTimeout h w)
             | None \<Rightarrow> (a, w))
      in if length (renderQueue a1) = 0 then (None, a1, w1)
         else
           (let a2 = a1\<lparr>renderQueue := js_sort compareEntries (renderQueue a1)\<rparr>
            in case executeAll (renderQueue a2) (a2, w1) of
                 (Some x, a3, w3) \<Rightarrow> (Some x, a3, w3)
               | (None, a3, w3) \<Rightarrow> (None, a3\<lparr>renderQueue := []\<rparr>, w3)))"

definition onInput :: "AdaptiveRenderer \<times> world \<Rightarrow> AdaptiveRenderer \<times> world" where
  "onInput aw =
     (let (a, w) = aw;
          (t, w1) = Date_now w;
          a1 = a\<lparr>lastInputTimeR := t, isTyping := True\<rparr>;
          w2 = (case typingTimeout a1 of Some h \<Rightarrow> clearTimeout h w1 | None \<Rightarrow> w1);
          (h, w3) = setTimeout IdleTimer (idleThresholdMs a1) w2
      in (a1\<lparr>typingTimeout := Some h\<rparr>, w3))"

text \<open>The closure armed by \<^verbatim>\<open>onInput\<close>, run when its timer fires.\<close>

definition idleTimeout :: "AdaptiveRenderer \<times> world \<Rightarrow> exn option \<times> AdaptiveRenderer \<times> world" where
  "idleTimeout aw = (let (a, w) = aw in flushDeferred (a\<lparr>isTyping := False\<rparr>, w))"

definition isDeferred :: "AdaptiveRenderer \<Rightarrow> bool" where
  "isDeferred a = (isTyping a \<and> length (renderQueue a) > 0)"

section \<open>Sequences of calls\<close>

text \<open>Calls on an InputBuffer that come before a \<^verbatim>\<open>flush()\<close>.\<close>

datatype bufferCall =
    CallPush pushData "int option"
  | CallPushBatch "(pushData \<times> int option) list"
  | CallPeek

fun call :: "bufferCall \<Rightarrow> InputBuffer \<times> world \<Rightarrow> InputBuffer \<times> world" where
  "call (CallPush d ts) bw = push d ts bw"
| "call (CallPushBatch inputs) bw = pushBatch inputs bw"
| "call CallPeek bw = (let s = peek (fst bw) in bw)"

fun calls :: "bufferCall list \<Rightarrow> InputBuffer \<times> world \<Rightarrow> InputBuffer \<times> world" where
  "calls [] bw = bw"
| "calls (c # cs) bw = calls cs (call c bw)"

text \<open>The units that a call appends to the queue, in order.\<close>

fun pushed :: "bufferCall \<Rightarrow> string list" where
  "pushed (CallPush d ts) = split_chars d"
| "pushed (CallPushBatch inputs) = concat (map (\<lambda>i. split_chars (fst i)) inputs)"
| "pushed CallPeek = []"

text \<open>
  One InputBuffer and one AdaptiveRenderer in one process, as in \<^verbatim>\<open>demo.mjs\<close>. An
  event is a call of a method from outside or the firing of a pending timer; timers fire
  in any order. An exception that leaves a method is dropped here: the objects keep the
  state in which the exception left them.
\<close>

record system =
  inputBuffer :: InputBuffer
  adaptiveRenderer :: AdaptiveRenderer
  process :: world

datatype event =
    Push pushData "int option"
  | PushBatch "(pushData \<times> int option) list"
  | Flush
  | Peek
  | ResetMetrics
  | OnInput
  | RequestRender renderFunction "priority nullable"
  | DeferRender renderFunction priority
  | ExecuteRender renderFunction
  | FlushDeferred
  | Fire nat

definition on_buffer :: "(InputBuffer \<times> world \<Rightarrow> InputBuffer \<times> world) \<Rightarrow> system \<Rightarrow> system" where
  "on_buffer f s =
     (let (b, w) = f (inputBuffer s, process s) in s\<lparr>inputBuffer := b, process := w\<rparr>)"

definition on_renderer ::
  "(AdaptiveRenderer \<times> world \<Rightarrow> AdaptiveRenderer \<times> world) \<Rightarrow> system \<Rightarrow> system" where
  "on_renderer f s =
     (let (a, w) = f (adaptiveRenderer s, process s) in s\<lparr>adaptiveRenderer := a, process := w\<rparr>)"

definition fire :: "nat \<Rightarrow> system \<Rightarrow> system" where
  "fire h s =
     (case find (\<lambda>t. handle t = h) (pending (process s)) of
        None \<Rightarrow> s
      | Some t \<Rightarrow>
          (let s1 = s\<lparr>process := clearTimeout h (process s)\<rparr>
           in case callback t of
                TypingModeOff \<Rightarrow> s1\<lparr>inputBuffer := typingModeOff (inputBuffer s1)\<rparr>
              | IdleTimer \<Rightarrow> on_renderer (\<lambda>aw. snd (idleTimeout aw)) s1
              | MaxDeferTimer \<Rightarrow> on_renderer (\<lambda>aw. snd (flushDeferred aw)) s1))"

fun step :: "event \<Rightarrow> system \<Rightarrow> system" where
  "step (Push d ts) s = on_buffer (push d ts) s"
| "step (PushBatch inputs) s = on_buffer (pushBatch inputs) s"
| "step Flush s = on_buffer (\<lambda>bw. snd (flush bw)) s"
| "step Peek s = (let c = peek (inputBuffer s) in s)"
| "step ResetMetrics s = s\<lparr>inputBuffer := resetMetrics (inputBuffer s)\<rparr>"
| "step OnInput s = on_renderer onInput s"
| "step (RequestRender f p) s = on_renderer (\<lambda>aw. snd (requestRender f p aw)) s"
| "step (DeferRender f p) s = on_renderer (deferRender f p) s"
| "step (ExecuteRender f) s = on_renderer (\<lambda>aw. snd (executeRender f aw)) s"
| "step FlushDeferred s = on_renderer (\<lambda>aw. snd (flushDeferred aw)) s"
| "step (Fire h) s = fire h s"

fun run :: "event list \<Rightarrow> system \<Rightarrow> system" where
  "run [] s = s"
| "run (e # es) s = run es (step e s)"

definition start :: "bufferOptions \<Rightarrow> rendererOptions \<Rightarrow> (nat \<Rightarrow> int) \<Rightarrow> system" where
  "start bo ro clk =
     (let (b, w) = InputBuffer_constructor bo (new_world clk)
      in \<lparr>inputBuffer = b, adaptiveRenderer = AdaptiveRenderer_constructor ro, process = w\<rparr>)"

text \<open>The number of pending timers that run a given closure.\<close>

definition pending_of :: "timer_kind \<Rightarrow> world \<Rightarrow> nat" where
  "pending_of k w = length (filter (\<lambda>t. callback t = k) (pending w))"

section \<open>Invariants of the process\<close>

text \<open>
  Every pending timer is the one whose handle its component holds in the field for that
  closure: \<open>typingModeTimeout\<close> of the buffer, \<open>typingTimeout\<close> and
  \<open>deferredRender\<close> of the renderer. Handles are issued once.
\<close>

definition tracked :: "InputBuffer \<Rightarrow> AdaptiveRenderer \<Rightarrow> world \<Rightarrow> bool" where
  "tracked b a w =
     (distinct (map handle (pending w))
      \<and> (\<forall>t\<in>set (pending w). handle t < next_handle w)
      \<and> (\<forall>t\<in>set (pending w). callback t = TypingModeOff \<longrightarrow>
            typingModeTimeout b = Some (handle t))
      \<and> (\<forall>t\<in>set (pending w). callback t = IdleTimer \<longrightarrow>
            typingTimeout a = Some (handle t))
      \<and> (\<forall>t\<in>set (pending w). callback t = MaxDeferTimer \<longrightarrow>
            deferredRender a = Some (handle t)))"

definition timers_tracked :: "system \<Rightarrow> bool" where
  "timers_tracked s = tracked (inputBuffer s) (adaptiveRenderer s) (process s)"



text \<open>
  The delay events of the buffer are the calls of the callback: \<open>delayEvents\<close> counts
  them and \<open>maxDelay\<close> is the largest delay among them (0 when there is none).
\<close>

definition delays_logged :: "InputBuffer \<Rightarrow> world \<Rightarrow> bool" where
  "delays_logged b w =
     (delayEvents (metrics b) = length (notified w)
      \<and> maxDelay (metrics b) = foldl max 0 (map info_delay (notified w)))"

definition delays_counted :: "system \<Rightarrow> bool" where
  "delays_counted s = delays_logged (inputBuffer s) (process s)"

section \<open>Facts shared by the claims\<close>

lemmas buffer_defs =
  flush_def push_def InputBuffer_constructor_def new_world_def Date_now_def split_chars_def
  setTimeout_def clearTimeout_def onDelayDetected_def nullish_def zero_metrics_def

lemmas renderer_defs =
  executeRender_def call_renderFn_def deferRender_def requestRender_def flushDeferred_def
  onInput_def AdaptiveRenderer_constructor_def

text \<open>What \<open>executeRender\<close> and the loop of \<open>flushDeferred\<close> leave alone.\<close>

lemma executeRender_frame:
  assumes "executeRender f (a, w) = (r, a', w')"
  shows "r = (if fn_throws f then Some (Thrown (fn_id f)) else None)"
    and "rendered w' = rendered w @ [fn_id f]"
    and "renderQueue a' = renderQueue a"
    and "deferredRender a' = deferredRender a"
    and "typingTimeout a' = typingTimeout a"
    and "isTyping a' = isTyping a"
    and "pending w' = pending w"
    and "next_handle w' = next_handle w"
    and "notified w' = notified w"
  using assms by (auto simp add: executeRender_def call_renderFn_def Date_now_def Let_def)

lemma executeAll_frame:
  "executeAll es (a, w) = (r, a', w') \<Longrightarrow>
   renderQueue a' = renderQueue a \<and> deferredRender a' = deferredRender a
   \<and> typingTimeout a' = typingTimeout a \<and> isTyping a' = isTyping a
   \<and> pending w' = pending w \<and> next_handle w' = next_handle w \<and> notified w' = notified w"
proof (induction es arbitrary: a w)
  case Nil
  then show ?case by simp
next
  case (Cons e es)
  obtain r1 a1 w1 where 1: "executeRender (renderFn e) (a, w) = (r1, a1, w1)"
    by (cases "executeRender (renderFn e) (a, w)")
  note fr = executeRender_frame [OF 1]
  show ?case
  proof (cases r1)
    case None
    with Cons.prems 1 have "executeAll es (a1, w1) = (r, a', w')" by simp
    from Cons.IH [OF this] fr(3-9) show ?thesis by simp
  next
    case (Some x)
    with Cons.prems 1 have "a' = a1" "w' = w1" by simp_all
    with fr(3-9) show ?thesis by simp
  qed
qed

lemma flushDeferred_timers:
  assumes "flushDeferred (a, w) = (r, a', w')"
  shows "pending w' = filter (\<lambda>t. Some (handle t) \<noteq> deferredRender a) (pending w)"
    and "next_handle w' = next_handle w"
    and "deferredRender a' = None"
    and "typingTimeout a' = typingTimeout a"
proof -
  define a1 where "a1 = (case deferredRender a of Some h \<Rightarrow> a\<lparr>deferredRender := None\<rparr> | None \<Rightarrow> a)"
  define w1 where "w1 = (case deferredRender a of Some h \<Rightarrow> clearTimeout h w | None \<Rightarrow> w)"
  have aw1: "(case deferredRender a of Some h \<Rightarrow> (a\<lparr>deferredRender := None\<rparr>, clearTimeout h w)
              | None \<Rightarrow> (a, w)) = (a1, w1)"
    by (simp add: a1_def w1_def split: option.splits)
  have a1: "deferredRender a1 = None" "typingTimeout a1 = typingTimeout a"
    by (simp_all add: a1_def split: option.splits)
  have w1: "pending w1 = filter (\<lambda>t. Some (handle t) \<noteq> deferredRender a) (pending w)"
    "next_handle w1 = next_handle w"
    by (auto simp add: w1_def clearTimeout_def split: option.splits)
  define a2 where "a2 = a1\<lparr>renderQueue := js_sort compareEntries (renderQueue a1)\<rparr>"
  obtain r3 a3 w3 where 3: "executeAll (renderQueue a2) (a2, w1) = (r3, a3, w3)"
    by (cases "executeAll (renderQueue a2) (a2, w1)")
  note fr = executeAll_frame [OF 3]
  have res: "(r, a', w') =
     (if length (renderQueue a1) = 0 then (None, a1, w1)
      else case r3 of Some x \<Rightarrow> (Some x, a3, w3) | None \<Rightarrow> (None, a3\<lparr>renderQueue := []\<rparr>, w3))"
    using assms 3 unfolding flushDeferred_def Let_def prod.case aw1 a2_def
    by (cases r3) (simp_all split: if_splits)
  have a2: "deferredRender a2 = None" "typingTimeout a2 = typingTimeout a"
    using a1 by (simp_all add: a2_def)
  show "pending w' = filter (\<lambda>t. Some (handle t) \<noteq> deferredRender a) (pending w)"
    using res fr w1 by (auto split: if_splits option.splits)
  show "next_handle w' = next_handle w"
    using res fr w1 by (auto split: if_splits option.splits)
  show "deferredRender a' = None"
    using res fr a1 a2 by (auto split: if_splits option.splits)
  show "typingTimeout a' = typingTimeout a"
    using res fr a1 a2 by (auto split: if_splits option.splits)
qed

text \<open>
  The sort keeps the elements; the loop runs its list up to and including the first
  render function that throws.
\<close>

lemma mset_js_insort: "mset (js_insort cmp x xs) = add_mset x (mset xs)"
  by (induction xs) simp_all

lemma mset_js_sort: "mset (js_sort cmp xs) = mset xs"
  by (induction xs) (simp_all add: mset_js_insort)

lemma set_js_insort: "set (js_insort cmp x xs) = insert x (set xs)"
  by (induction xs) auto

lemma length_js_sort: "length (js_sort cmp xs) = length xs"
  using mset_js_sort [of cmp xs] by (metis size_mset)

lemma executeAll_runs:
  "executeAll es (a, w) = (r, a', w') \<Longrightarrow>
   rendered w' = rendered w
     @ map (\<lambda>e. fn_id (renderFn e))
         (takeWhile (\<lambda>e. \<not> fn_throws (renderFn e)) es
          @ take 1 (dropWhile (\<lambda>e. \<not> fn_throws (renderFn e)) es))"
proof (induction es arbitrary: a w)
  case Nil
  then show ?case by simp
next
  case (Cons e es)
  obtain r1 a1 w1 where 1: "executeRender (renderFn e) (a, w) = (r1, a1, w1)"
    by (cases "executeRender (renderFn e) (a, w)")
  note fr = executeRender_frame(1,2) [OF 1]
  show ?case
  proof (cases "fn_throws (renderFn e)")
    case False
    with fr(1) have "r1 = None" by simp
    with Cons.prems 1 have "executeAll es (a1, w1) = (r, a', w')" by simp
    from Cons.IH [OF this] fr(2) False show ?thesis by simp
  next
    case True
    with fr(1) have "r1 = Some (Thrown (fn_id (renderFn e)))" by simp
    with Cons.prems 1 have "w' = w1" by simp
    with fr(2) True show ?thesis by simp
  qed
qed

lemma executeAll_no_throw:
  "\<forall>e\<in>set es. \<not> fn_throws (renderFn e) \<Longrightarrow> executeAll es (a, w) = (r, a', w') \<Longrightarrow>
   r = None \<and> rendered w' = rendered w @ map (\<lambda>e. fn_id (renderFn e)) es"
proof (induction es arbitrary: a w)
  case Nil
  then show ?case by simp
next
  case (Cons e es)
  obtain r1 a1 w1 where 1: "executeRender (renderFn e) (a, w) = (r1, a1, w1)"
    by (cases "executeRender (renderFn e) (a, w)")
  have r1: "r1 = None" using executeRender_frame(1) [OF 1] Cons.prems(1) by simp
  with Cons.prems 1 have 2: "executeAll es (a1, w1) = (r, a', w')" by simp
  have "\<forall>e\<in>set es. \<not> fn_throws (renderFn e)" using Cons.prems(1) by simp
  from Cons.IH [OF this 2] executeRender_frame(2) [OF 1] show ?case by simp
qed

lemma flushDeferred_no_throw:
  assumes nt: "\<forall>e\<in>set (renderQueue a). \<not> fn_throws (renderFn e)"
    and fl: "flushDeferred (a, w) = (r, a', w')"
  shows "r = None"
    and "rendered w' = rendered w
           @ map (\<lambda>e. fn_id (renderFn e)) (js_sort compareEntries (renderQueue a))"
    and "renderQueue a' = []"
proof -
  define a1 where "a1 = (case deferredRender a of Some h \<Rightarrow> a\<lparr>deferredRender := None\<rparr> | None \<Rightarrow> a)"
  define w1 where "w1 = (case deferredRender a of Some h \<Rightarrow> clearTimeout h w | None \<Rightarrow> w)"
  define srt where "srt = js_sort compareEntries (renderQueue a)"
  have q1: "renderQueue a1 = renderQueue a" by (simp add: a1_def split: option.splits)
  have rw1: "rendered w1 = rendered w" by (simp add: w1_def clearTimeout_def split: option.splits)
  have aw1: "(case deferredRender a of Some h \<Rightarrow> (a\<lparr>deferredRender := None\<rparr>, clearTimeout h w)
              | None \<Rightarrow> (a, w)) = (a1, w1)"
    by (simp add: a1_def w1_def split: option.splits)
  obtain r3 a3 w3 where 3: "executeAll srt (a1\<lparr>renderQueue := srt\<rparr>, w1) = (r3, a3, w3)"
    by (cases "executeAll srt (a1\<lparr>renderQueue := srt\<rparr>, w1)")
  have "set srt = set (renderQueue a)"
    using mset_js_sort [of compareEntries "renderQueue a"] unfolding srt_def by (metis set_mset_mset)
  with nt have "\<forall>e\<in>set srt. \<not> fn_throws (renderFn e)" by simp
  from executeAll_no_throw [OF this 3]
  have r3: "r3 = None" and rd: "rendered w3 = rendered w1 @ map (\<lambda>e. fn_id (renderFn e)) srt"
    by simp_all
  have "flushDeferred (a, w) =
     (if renderQueue a = [] then (None, a1, w1) else (None, a3\<lparr>renderQueue := []\<rparr>, w3))"
    unfolding flushDeferred_def Let_def prod.case aw1
    using 3 r3 by (simp add: q1 srt_def)
  with fl have res: "(r, a', w') =
     (if renderQueue a = [] then (None, a1, w1) else (None, a3\<lparr>renderQueue := []\<rparr>, w3))"
    by simp
  have e: "renderQueue a = [] \<Longrightarrow> srt = []" by (simp add: srt_def)
  show "r = None" using res by (simp split: if_splits)
  show "rendered w' = rendered w
           @ map (\<lambda>e. fn_id (renderFn e)) (js_sort compareEntries (renderQueue a))"
    using res rd rw1 e by (auto simp add: srt_def split: if_splits)
  show "renderQueue a' = []" using res q1 by (auto split: if_splits)
qed

section \<open>C1: the order of flushed content\<close>

lemma push_loop_chars:
  "map char (buffer (fst (push_loop cs ts (b, w)))) = map char (buffer b) @ cs"
  by (induction cs arbitrary: b w) (simp_all add: Date_now_def)

lemma push_chars:
  "map char (buffer (fst (push d ts (b, w)))) = map char (buffer b) @ split_chars d"
proof -
  obtain t w0 where 0: "(case ts of None \<Rightarrow> Date_now w | Some t \<Rightarrow> (t, w)) = (t, w0)"
    by (cases "case ts of None \<Rightarrow> Date_now w | Some t \<Rightarrow> (t, w)")
  obtain b1 w1 where 1: "push_loop (split_chars d) t (b, w0) = (b1, w1)"
    by (cases "push_loop (split_chars d) t (b, w0)")
  have "map char (buffer b1) = map char (buffer b) @ split_chars d"
    using push_loop_chars [of "split_chars d" t b w0] 1 by simp
  then show ?thesis
    by (simp add: push_def 0 1 Let_def split: prod.splits)
qed

lemma pushBatch_chars:
  "map char (buffer (fst (pushBatch inputs bw))) =
     map char (buffer (fst bw)) @ concat (map (\<lambda>i. split_chars (fst i)) inputs)"
proof (induction inputs arbitrary: bw)
  case Nil
  show ?case by simp
next
  case (Cons i inputs)
  obtain d ts where i: "i = (d, ts)" by (cases i)
  obtain b w where bw: "bw = (b, w)" by (cases bw)
  show ?case
    by (simp add: i bw Cons.IH push_chars)
qed

lemma call_chars: "map char (buffer (fst (call c bw))) = map char (buffer (fst bw)) @ pushed c"
proof (cases c)
  case (CallPush d ts)
  then show ?thesis by (cases bw) (simp add: push_chars)
next
  case (CallPushBatch inputs)
  then show ?thesis by (simp add: pushBatch_chars)
next
  case CallPeek
  then show ?thesis by simp
qed

lemma calls_chars:
  "map char (buffer (fst (calls cs bw))) = map char (buffer (fst bw)) @ concat (map pushed cs)"
  by (induction cs arbitrary: bw) (simp_all add: call_chars)

lemma flush_chars:
  "chars (fst (flush (b, w))) = concat (map char (buffer b))"
  by (simp add: flush_def Let_def split: prod.splits)

lemma flush_buffer_empty: "buffer (fst (snd (flush (b, w)))) = []"
  by (simp add: flush_def Let_def split: prod.splits)

text \<open>
  Claim C1. Start from any buffer and make any sequence of \<open>push\<close>, \<open>pushBatch\<close> and
  \<open>peek\<close> calls. The queue then holds the units it held before followed by the units of
  the calls, in the order of the calls; \<open>flush()\<close> returns the concatenation of exactly
  these units and empties the queue, so none is returned twice. A \<open>peek()\<close> before the
  flush returns the same text, and a \<open>peek()\<close> call changes neither the buffer (queue,
  metrics, typing mode) nor anything else.
\<close>

theorem flush_returns_pushed_units_in_order:
  "(let (b', w') = calls cs (b, w);
        (r, b'', w'') = flush (b', w')
    in map char (buffer b') = map char (buffer b) @ concat (map pushed cs)
       \<and> chars r = concat (map char (buffer b) @ concat (map pushed cs))
       \<and> peek b' = chars r
       \<and> buffer b'' = [])
   \<and> call CallPeek (b, w) = (b, w)"
proof -
  obtain b' w' where c: "calls cs (b, w) = (b', w')" by (cases "calls cs (b, w)")
  obtain r b'' w'' where f: "flush (b', w') = (r, b'', w'')" by (cases "flush (b', w')")
  have 1: "map char (buffer b') = map char (buffer b) @ concat (map pushed cs)"
    using calls_chars [of cs "(b, w)"] c by simp
  have 2: "chars r = concat (map char (buffer b'))"
    using flush_chars [of b' w'] f by simp
  have 3: "buffer b'' = []"
    using flush_buffer_empty [of b' w'] f by simp
  show ?thesis
    using 1 2 3 by (simp add: c f peek_def)
qed

text \<open>
  Two pushes and a batch, with calls of \<open>peek\<close> in between, on a new buffer; the second
  unit of the batch is not a string.
\<close>

theorem flush_returns_pushed_units_in_order_witness:
  "(let (b, w) = InputBuffer_constructor
                   \<lparr>opt_delayThresholdMs = Undefined, opt_typingModeDelayMs = Undefined\<rparr>
                   (new_world (\<lambda>k. int k));
        (b', w') = calls [CallPush (Str ''ab'') None, CallPeek,
                          CallPushBatch [(Str ''c'', Some 3), (Other ''[object Object]'', None)],
                          CallPeek, CallPeek, CallPush (Str ''d'') (Some 7)] (b, w);
        (r, b'', w'') = flush (b', w')
    in map char (buffer b') = [''a'', ''b'', ''c'', ''[object Object]'', ''d'']
       \<and> peek b' = ''abc[object Object]d''
       \<and> chars r = ''abc[object Object]d''
       \<and> buffer b'' = [])"
  using flush_returns_pushed_units_in_order
    [of "[CallPush (Str ''ab'') None, CallPeek,
          CallPushBatch [(Str ''c'', Some 3), (Other ''[object Object]'', None)],
          CallPeek, CallPeek, CallPush (Str ''d'') (Some 7)]"
        "fst (InputBuffer_constructor
                \<lparr>opt_delayThresholdMs = Undefined, opt_typingModeDelayMs = Undefined\<rparr>
                (new_world (\<lambda>k. int k)))"
        "snd (InputBuffer_constructor
                \<lparr>opt_delayThresholdMs = Undefined, opt_typingModeDelayMs = Undefined\<rparr>
                (new_world (\<lambda>k. int k)))"]
  by (simp add: InputBuffer_constructor_def new_world_def Date_now_def split_chars_def
      case_prod_beta Let_def)

section \<open>C2: deferred entries after a throwing render function\<close>

text \<open>
  When no queued render function throws, the pass empties the queue and a second
  \<open>flushDeferred()\<close> changes nothing.
\<close>

lemma flushDeferred_twice:
  assumes "\<forall>e\<in>set (renderQueue a). \<not> fn_throws (renderFn e)"
    and "flushDeferred (a, w) = (r, a', w')"
  shows "flushDeferred (a', w') = (None, a', w')"
  using flushDeferred_no_throw(3) [OF assms] flushDeferred_timers(3) [OF assms(2)]
  by (simp add: flushDeferred_def)

text \<open>
  Claim C2. The claim holds when no render function throws. When one does, the loop of
  \<open>flushDeferred\<close> is left before \<open>this.renderQueue = []\<close>, and the queue keeps every
  entry, also those already run. With render function 1 (returns) and render function 2
  (throws) deferred while typing, the first \<open>flushDeferred()\<close> runs 1 and 2 and throws;
  the second one, with nothing enqueued in between, runs 1 and 2 again.
\<close>

theorem deferred_entry_runs_again_after_throw:
  "(let f1 = \<lparr>fn_id = 1, fn_throws = False\<rparr>;
        f2 = \<lparr>fn_id = 2, fn_throws = True\<rparr>;
        aw0 = (AdaptiveRenderer_constructor
                 \<lparr>opt_idleThresholdMs = Undefined, opt_maxDeferMs = Undefined,
                  opt_minRenderIntervalMs = Undefined\<rparr>, new_world (\<lambda>k. 0));
        aw1 = onInput aw0;
        (r2, aw2) = requestRender f1 (Given Normal) aw1;
        (r3, aw3) = requestRender f2 (Given Normal) aw2;
        (r4, aw4) = flushDeferred aw3;
        (r5, aw5) = flushDeferred aw4
    in map (\<lambda>e. fn_id (renderFn e)) (renderQueue (fst aw3)) = [1, 2]
       \<and> rendered (snd aw3) = []
       \<and> r4 = Some (Thrown 2)
       \<and> rendered (snd aw4) = [1, 2]
       \<and> map (\<lambda>e. fn_id (renderFn e)) (renderQueue (fst aw4)) = [1, 2]
       \<and> r5 = Some (Thrown 2)
       \<and> rendered (snd aw5) = [1, 2, 1, 2])"
  by (simp add: renderer_defs new_world_def Date_now_def setTimeout_def clearTimeout_def
      nullish_def compareEntries_def priorityOrder_def Let_def)

section \<open>C3: the order of a deferred flush\<close>

lemma priorityOrder_inj: "priorityOrder p = priorityOrder q \<longleftrightarrow> p = q"
  by (cases p; cases q) (simp_all add: priorityOrder_def)

lemma compareEntries_le:
  "compareEntries x y \<le> 0 \<longleftrightarrow>
     priorityOrder (priority x) < priorityOrder (priority y)
     \<or> (priority x = priority y \<and> queuedAtR x \<le> queuedAtR y)"
  using priorityOrder_inj [of "priority x" "priority y"]
  by (auto simp add: compareEntries_def Let_def)

lemma sorted_js_insort:
  assumes total: "\<And>x y. cmp x y \<le> 0 \<or> cmp y x \<le> 0"
    and trans: "\<And>x y z. cmp x y \<le> 0 \<Longrightarrow> cmp y z \<le> 0 \<Longrightarrow> cmp x z \<le> 0"
  shows "sorted_wrt (\<lambda>x y. cmp x y \<le> 0) xs \<Longrightarrow>
         sorted_wrt (\<lambda>x y. cmp x y \<le> 0) (js_insort cmp x xs)"
proof (induction xs)
  case Nil
  show ?case by simp
next
  case (Cons y ys)
  show ?case
  proof (cases "cmp x y \<le> 0")
    case True
    then have "\<forall>z\<in>set ys. cmp x z \<le> 0"
      using Cons.prems trans by auto
    with True Cons.prems show ?thesis by simp
  next
    case False
    then have "cmp y x \<le> 0" using total [of x y] by simp
    with False Cons show ?thesis by (auto simp add: set_js_insort)
  qed
qed

lemma sorted_js_sort_compareEntries:
  "sorted_wrt (\<lambda>x y. compareEntries x y \<le> 0) (js_sort compareEntries xs)"
proof (induction xs)
  case Nil
  show ?case by simp
next
  case (Cons x xs)
  have total: "\<And>x y. compareEntries x y \<le> 0 \<or> compareEntries y x \<le> 0"
    by (auto simp add: compareEntries_le priorityOrder_inj)
  have trans: "\<And>x y z. compareEntries x y \<le> 0 \<Longrightarrow> compareEntries y z \<le> 0
                 \<Longrightarrow> compareEntries x z \<le> 0"
    by (auto simp add: compareEntries_le)
  show ?case
    using sorted_js_insort [of compareEntries, OF total trans Cons.IH] by simp
qed

lemma filter_js_insort_compareEntries:
  "filter (\<lambda>e. priority e = p \<and> queuedAtR e = t) (js_insort compareEntries x xs) =
     filter (\<lambda>e. priority e = p \<and> queuedAtR e = t) (x # xs)"
  by (induction xs) (auto simp add: compareEntries_le)

lemma filter_js_sort_compareEntries:
  "filter (\<lambda>e. priority e = p \<and> queuedAtR e = t) (js_sort compareEntries xs) =
     filter (\<lambda>e. priority e = p \<and> queuedAtR e = t) xs"
  by (induction xs) (simp_all add: filter_js_insort_compareEntries)

lemma flushDeferred_runs:
  assumes "flushDeferred (a, w) = (r, a', w')"
  shows "rendered w' = rendered w
           @ map (\<lambda>e. fn_id (renderFn e))
               (takeWhile (\<lambda>e. \<not> fn_throws (renderFn e))
                  (js_sort compareEntries (renderQueue a))
                @ take 1 (dropWhile (\<lambda>e. \<not> fn_throws (renderFn e))
                            (js_sort compareEntries (renderQueue a))))"
proof (cases "renderQueue a = []")
  case True
  with assms have "rendered w' = rendered w"
    by (auto simp add: flushDeferred_def clearTimeout_def split: option.splits)
  with True show ?thesis by simp
next
  case False
  define a1 where "a1 = (case deferredRender a of Some h \<Rightarrow> a\<lparr>deferredRender := None\<rparr> | None \<Rightarrow> a)"
  define w1 where "w1 = (case deferredRender a of Some h \<Rightarrow> clearTimeout h w | None \<Rightarrow> w)"
  define srt where "srt = js_sort compareEntries (renderQueue a)"
  have q1: "renderQueue a1 = renderQueue a" by (simp add: a1_def split: option.splits)
  have rw1: "rendered w1 = rendered w" by (simp add: w1_def clearTimeout_def split: option.splits)
  obtain r3 a3 w3 where 3: "executeAll srt (a1\<lparr>renderQueue := srt\<rparr>, w1) = (r3, a3, w3)"
    by (cases "executeAll srt (a1\<lparr>renderQueue := srt\<rparr>, w1)")
  have "w' = w3"
    using assms False 3 q1
    by (auto simp add: flushDeferred_def a1_def w1_def srt_def Let_def split: option.splits)
  with executeAll_runs [OF 3] rw1 show ?thesis
    by (simp add: srt_def)
qed

lemma requestRender_defers:
  assumes "nullish p_opt Normal \<noteq> High" "isTyping a"
    and "clock w (reads w) - lastInputTimeR a < idleThresholdMs a"
    and "requestRender f p_opt (a, w) = (r, a', w')"
  shows "r = None \<and> rendered w' = rendered w
     \<and> renderQueue a' = renderQueue a
          @ [\<lparr>renderFn = f, priority = nullish p_opt Normal, queuedAtR = clock w (Suc (reads w))\<rparr>]
     \<and> deferredRenders (metricsR a') = deferredRenders (metricsR a) + 1
     \<and> totalRenders (metricsR a') = totalRenders (metricsR a)"
  using assms
  by (auto simp add: requestRender_def deferRender_def Date_now_def setTimeout_def Let_def
      split: option.splits)

text \<open>
  Claim C3 fails as it stands: with a queue whose first entry throws, \<open>flushDeferred()\<close>
  runs that entry only, and the queue is not empty afterwards.
\<close>

theorem flushDeferred_aborts_at_throwing_entry:
  "(let aw0 = onInput (AdaptiveRenderer_constructor
                 \<lparr>opt_idleThresholdMs = Undefined, opt_maxDeferMs = Undefined,
                  opt_minRenderIntervalMs = Undefined\<rparr>, new_world (\<lambda>k. 0));
        (r1, aw1) = requestRender \<lparr>fn_id = 1, fn_throws = True\<rparr> (Given Normal) aw0;
        (r2, aw2) = requestRender \<lparr>fn_id = 2, fn_throws = False\<rparr> (Given Low) aw1;
        (r, a', w') = flushDeferred aw2
    in map (\<lambda>e. (fn_id (renderFn e), priority e)) (renderQueue (fst aw2))
         = [(1, Normal), (2, Low)]
       \<and> rendered (snd aw2) = []
       \<and> r = Some (Thrown 1)
       \<and> rendered w' = [1]
       \<and> renderQueue a' \<noteq> [])"
  by (simp add: renderer_defs new_world_def Date_now_def setTimeout_def clearTimeout_def
      nullish_def compareEntries_def priorityOrder_def Let_def)

text \<open>
  Claim C3, amended. The sort leaves the queue in an order \<open>order\<close> that is a permutation
  of the queue, ascending in priority (high, normal, low) and, within a priority, in
  \<open>queuedAt\<close>; entries equal in both keep their queue order. \<open>flushDeferred()\<close> runs the
  render functions in this order, up to and including the first one that throws. When
  none of the queued render functions throws, it runs all of them, returns, and leaves
  the queue empty. A \<open>requestRender\<close> whose priority is not high, made while
  \<open>isTyping\<close> holds and less than \<open>idleThresholdMs\<close> after the last input, runs
  nothing and appends the entry to the queue.
\<close>

theorem flushDeferred_priority_then_fifo:
  "(let queue = renderQueue a;
        order = js_sort compareEntries queue;
        (r, a', w') = flushDeferred (a, w)
    in mset order = mset queue
       \<and> sorted_wrt (\<lambda>x y. priorityOrder (priority x) < priorityOrder (priority y)
                           \<or> (priority x = priority y \<and> queuedAtR x \<le> queuedAtR y)) order
       \<and> (\<forall>p t. filter (\<lambda>e. priority e = p \<and> queuedAtR e = t) order
                 = filter (\<lambda>e. priority e = p \<and> queuedAtR e = t) queue)
       \<and> rendered w' = rendered w
            @ map (\<lambda>e. fn_id (renderFn e))
                (takeWhile (\<lambda>e. \<not> fn_throws (renderFn e)) order
                 @ take 1 (dropWhile (\<lambda>e. \<not> fn_throws (renderFn e)) order))
       \<and> ((\<forall>e\<in>set queue. \<not> fn_throws (renderFn e)) \<longrightarrow>
            r = None \<and> renderQueue a' = []
            \<and> rendered w' = rendered w @ map (\<lambda>e. fn_id (renderFn e)) order))
   \<and> (nullish p_opt Normal \<noteq> High \<and> isTyping a
         \<and> clock w (reads w) - lastInputTimeR a < idleThresholdMs a \<longrightarrow>
       (let (r, a', w') = requestRender f p_opt (a, w)
        in r = None \<and> rendered w' = rendered w
           \<and> renderQueue a' = renderQueue a
                @ [\<lparr>renderFn = f, priority = nullish p_opt Normal,
                    queuedAtR = clock w (Suc (reads w))\<rparr>]))"
proof -
  obtain r a' w' where fl: "flushDeferred (a, w) = (r, a', w')"
    by (cases "flushDeferred (a, w)")
  obtain r2 a2 w2 where rq: "requestRender f p_opt (a, w) = (r2, a2, w2)"
    by (cases "requestRender f p_opt (a, w)")
  have 1: "mset (js_sort compareEntries (renderQueue a)) = mset (renderQueue a)"
    by (rule mset_js_sort)
  have 2: "sorted_wrt (\<lambda>x y. priorityOrder (priority x) < priorityOrder (priority y)
                           \<or> (priority x = priority y \<and> queuedAtR x \<le> queuedAtR y))
             (js_sort compareEntries (renderQueue a))"
    using sorted_js_sort_compareEntries [of "renderQueue a"] by (simp add: compareEntries_le)
  note 3 = filter_js_sort_compareEntries [of _ _ "renderQueue a"]
  note 4 = flushDeferred_runs [OF fl]
  note 5 = flushDeferred_no_throw [OF _ fl]
  note 6 = requestRender_defers [OF _ _ _ rq]
  show ?thesis
    unfolding Let_def fl rq prod.case
    using 1 2 3 4 5 6 by blast
qed

text \<open>
  The example of the claim: entries enqueued as low, high, normal at successive clock
  readings are run in the order high, normal, low.
\<close>

theorem flushDeferred_priority_then_fifo_witness:
  "(let aw0 = onInput (AdaptiveRenderer_constructor
                 \<lparr>opt_idleThresholdMs = Undefined, opt_maxDeferMs = Undefined,
                  opt_minRenderIntervalMs = Undefined\<rparr>, new_world (\<lambda>k. int k));
        aw1 = deferRender \<lparr>fn_id = 10, fn_throws = False\<rparr> Low aw0;
        aw2 = deferRender \<lparr>fn_id = 11, fn_throws = False\<rparr> High aw1;
        (a, w) = deferRender \<lparr>fn_id = 12, fn_throws = False\<rparr> Normal aw2;
        (r, a', w') = flushDeferred (a, w);
        (r2, a2, w2) = requestRender \<lparr>fn_id = 13, fn_throws = False\<rparr> Undefined (a, w)
    in map (\<lambda>e. (fn_id (renderFn e), priority e, queuedAtR e)) (renderQueue a)
         = [(10, Low, 1), (11, High, 2), (12, Normal, 3)]
       \<and> list_all (\<lambda>e. \<not> fn_throws (renderFn e)) (renderQueue a)
       \<and> r = None \<and> rendered w' = [11, 12, 10] \<and> renderQueue a' = []
       \<and> isTyping a \<and> clock w (reads w) - lastInputTimeR a = 4 \<and> idleThresholdMs a = 50
       \<and> r2 = None \<and> rendered w2 = []
       \<and> map (\<lambda>e. (fn_id (renderFn e), priority e, queuedAtR e)) (renderQueue a2)
         = [(10, Low, 1), (11, High, 2), (12, Normal, 3), (13, Normal, 5)])"
  using flushDeferred_priority_then_fifo
    [of "fst (deferRender \<lparr>fn_id = 12, fn_throws = False\<rparr> Normal
           (deferRender \<lparr>fn_id = 11, fn_throws = False\<rparr> High
             (deferRender \<lparr>fn_id = 10, fn_throws = False\<rparr> Low
               (onInput (AdaptiveRenderer_constructor
                 \<lparr>opt_idleThresholdMs = Undefined, opt_maxDeferMs = Undefined,
                  opt_minRenderIntervalMs = Undefined\<rparr>, new_world (\<lambda>k. int k))))))"
        "snd (deferRender \<lparr>fn_id = 12, fn_throws = False\<rparr> Normal
           (deferRender \<lparr>fn_id = 11, fn_throws = False\<rparr> High
             (deferRender \<lparr>fn_id = 10, fn_throws = False\<rparr> Low
               (onInput (AdaptiveRenderer_constructor
                 \<lparr>opt_idleThresholdMs = Undefined, opt_maxDeferMs = Undefined,
                  opt_minRenderIntervalMs = Undefined\<rparr>, new_world (\<lambda>k. int k))))))"
        Undefined "\<lparr>fn_id = 13, fn_throws = False\<rparr>"]
  by (simp add: renderer_defs new_world_def Date_now_def setTimeout_def clearTimeout_def
      nullish_def compareEntries_def priorityOrder_def Let_def)

section \<open>C4: delay events\<close>



text \<open>
  Over a run of the process without \<open>resetMetrics\<close>, \<open>maxDelay\<close> is therefore the
  maximum of the delays of all delay events so far, and \<open>delayEvents\<close> their number.
\<close>

lemma push_loop_delays:
  "push_loop cs ts (b, w) = (b', w') \<Longrightarrow> metrics b' = metrics b \<and> notified w' = notified w"
  by (induction cs arbitrary: b w) (auto simp add: Date_now_def)

lemma push_delays:
  assumes "delays_logged b w" "push d ts (b, w) = (b', w')"
  shows "delays_logged b' w'"
proof -
  obtain t w0 where 0: "(case ts of None \<Rightarrow> Date_now w | Some t \<Rightarrow> (t, w)) = (t, w0)"
    by (cases "case ts of None \<Rightarrow> Date_now w | Some t \<Rightarrow> (t, w)")
  have w0: "notified w0 = notified w"
    using 0 by (auto simp add: Date_now_def split: option.splits)
  obtain b1 w1 where 1: "push_loop (split_chars d) t (b, w0) = (b1, w1)"
    by (cases "push_loop (split_chars d) t (b, w0)")
  note pl = push_loop_delays [OF 1]
  have "(b', w') = push d ts (b, w)" using assms(2) by simp
  then show ?thesis
    using assms(1) pl w0
    by (cases "typingModeTimeout b1")
       (auto simp add: delays_logged_def push_def 0 1 Let_def Date_now_def setTimeout_def
         clearTimeout_def split: prod.splits)
qed

lemma pushBatch_delays:
  "delays_logged (fst bw) (snd bw) \<Longrightarrow>
   delays_logged (fst (pushBatch inputs bw)) (snd (pushBatch inputs bw))"
proof (induction inputs arbitrary: bw)
  case Nil
  then show ?case by simp
next
  case (Cons i inputs)
  obtain d ts where i: "i = (d, ts)" by (cases i)
  obtain b w where bw: "bw = (b, w)" by (cases bw)
  obtain b' w' where p: "push d ts (b, w) = (b', w')" by (cases "push d ts (b, w)")
  have "delays_logged b' w'" using push_delays [OF _ p] Cons.prems bw by simp
  then show ?case using Cons.IH [of "(b', w')"] by (simp add: i bw p)
qed

lemma flush_delays:
  assumes "delays_logged b w" "flush (b, w) = (r, b', w')"
  shows "delays_logged b' w'"
  using assms
  by (auto simp add: delays_logged_def flush_def Date_now_def onDelayDetected_def Let_def
      split: if_splits)

lemma onInput_notified: "onInput (a, w) = (a', w') \<Longrightarrow> notified w' = notified w"
  by (auto simp add: onInput_def Date_now_def setTimeout_def clearTimeout_def Let_def
      split: option.splits)

lemma deferRender_notified: "deferRender f p (a, w) = (a', w') \<Longrightarrow> notified w' = notified w"
  by (auto simp add: deferRender_def Date_now_def setTimeout_def Let_def split: option.splits)

lemma requestRender_notified:
  assumes "requestRender f p (a, w) = (r, a', w')"
  shows "notified w' = notified w"
proof -
  obtain now w1 where n: "Date_now w = (now, w1)" by (cases "Date_now w")
  then have w1: "notified w1 = notified w" by (auto simp add: Date_now_def)
  show ?thesis
  proof (cases "nullish p Normal \<noteq> High \<and> isTyping a \<and> now - lastInputTimeR a < idleThresholdMs a")
    case True
    then have "deferRender f (nullish p Normal) (a, w1) = (a', w')"
      using assms by (simp add: requestRender_def n Let_def)
    from deferRender_notified [OF this] w1 show ?thesis by simp
  next
    case False
    then have "executeRender f (a, w1) = (r, a', w')"
      using assms by (auto simp add: requestRender_def n Let_def split: if_splits)
    from executeRender_frame(9) [OF this] w1 show ?thesis by simp
  qed
qed

lemma flushDeferred_notified:
  assumes "flushDeferred (a, w) = (r, a', w')"
  shows "notified w' = notified w"
proof -
  define a1 where "a1 = (case deferredRender a of Some h \<Rightarrow> a\<lparr>deferredRender := None\<rparr> | None \<Rightarrow> a)"
  define w1 where "w1 = (case deferredRender a of Some h \<Rightarrow> clearTimeout h w | None \<Rightarrow> w)"
  have aw1: "(case deferredRender a of Some h \<Rightarrow> (a\<lparr>deferredRender := None\<rparr>, clearTimeout h w)
              | None \<Rightarrow> (a, w)) = (a1, w1)"
    by (simp add: a1_def w1_def split: option.splits)
  have w1: "notified w1 = notified w"
    by (simp add: w1_def clearTimeout_def split: option.splits)
  define a2 where "a2 = a1\<lparr>renderQueue := js_sort compareEntries (renderQueue a1)\<rparr>"
  obtain r3 a3 w3 where 3: "executeAll (renderQueue a2) (a2, w1) = (r3, a3, w3)"
    by (cases "executeAll (renderQueue a2) (a2, w1)")
  note fr = executeAll_frame [OF 3]
  have res: "(r, a', w') =
     (if length (renderQueue a1) = 0 then (None, a1, w1)
      else case r3 of Some x \<Rightarrow> (Some x, a3, w3) | None \<Rightarrow> (None, a3\<lparr>renderQueue := []\<rparr>, w3))"
    using assms 3 unfolding flushDeferred_def Let_def prod.case aw1 a2_def
    by (cases r3) (simp_all split: if_splits)
  show ?thesis
    using res fr w1 by (auto split: if_splits option.splits)
qed

lemma fire_delays:
  assumes "delays_counted s"
  shows "delays_counted (fire h s)"
proof (cases "find (\<lambda>t. handle t = h) (pending (process s))")
  case None
  with assms show ?thesis by (simp add: fire_def)
next
  case (Some t)
  define w1 where "w1 = clearTimeout h (process s)"
  have t1: "delays_logged (inputBuffer s) w1"
    using assms unfolding w1_def delays_counted_def
    by (simp add: delays_logged_def clearTimeout_def)
  show ?thesis
  proof (cases "callback t")
    case TypingModeOff
    then show ?thesis
      using t1
      by (simp add: fire_def Some delays_counted_def delays_logged_def typingModeOff_def w1_def)
  next
    case IdleTimer
    obtain r a' w' where i: "flushDeferred ((adaptiveRenderer s)\<lparr>isTyping := False\<rparr>, w1) = (r, a', w')"
      by (cases "flushDeferred ((adaptiveRenderer s)\<lparr>isTyping := False\<rparr>, w1)")
    from flushDeferred_notified [OF i] t1 show ?thesis
      by (simp add: fire_def Some IdleTimer delays_counted_def delays_logged_def on_renderer_def
          idleTimeout_def i flip: w1_def)
  next
    case MaxDeferTimer
    obtain r a' w' where i: "flushDeferred (adaptiveRenderer s, w1) = (r, a', w')"
      by (cases "flushDeferred (adaptiveRenderer s, w1)")
    from flushDeferred_notified [OF i] t1 show ?thesis
      by (simp add: fire_def Some MaxDeferTimer delays_counted_def delays_logged_def
          on_renderer_def i flip: w1_def)
  qed
qed

lemma step_delays:
  assumes "delays_counted s" "e \<noteq> ResetMetrics"
  shows "delays_counted (step e s)"
proof (cases e)
  case (Push d ts)
  obtain b' w' where p: "push d ts (inputBuffer s, process s) = (b', w')"
    by (cases "push d ts (inputBuffer s, process s)")
  from push_delays [OF _ p] assms show ?thesis
    by (simp add: Push on_buffer_def p delays_counted_def)
next
  case (PushBatch inputs)
  obtain b' w' where p: "pushBatch inputs (inputBuffer s, process s) = (b', w')"
    by (cases "pushBatch inputs (inputBuffer s, process s)")
  from pushBatch_delays [of "(inputBuffer s, process s)" inputs] assms
  show ?thesis
    by (simp add: PushBatch on_buffer_def p delays_counted_def)
next
  case Flush
  obtain r b' w' where p: "flush (inputBuffer s, process s) = (r, b', w')"
    by (cases "flush (inputBuffer s, process s)")
  from flush_delays [OF _ p] assms show ?thesis
    by (simp add: Flush on_buffer_def p delays_counted_def)
next
  case Peek
  with assms show ?thesis by simp
next
  case ResetMetrics
  with assms show ?thesis by simp
next
  case OnInput
  obtain a' w' where p: "onInput (adaptiveRenderer s, process s) = (a', w')"
    by (cases "onInput (adaptiveRenderer s, process s)")
  from onInput_notified [OF p] assms show ?thesis
    by (simp add: OnInput on_renderer_def p delays_counted_def delays_logged_def)
next
  case (RequestRender f pr)
  obtain r a' w' where p: "requestRender f pr (adaptiveRenderer s, process s) = (r, a', w')"
    by (cases "requestRender f pr (adaptiveRenderer s, process s)")
  from requestRender_notified [OF p] assms show ?thesis
    by (simp add: RequestRender on_renderer_def p delays_counted_def delays_logged_def)
next
  case (DeferRender f pr)
  obtain a' w' where p: "deferRender f pr (adaptiveRenderer s, process s) = (a', w')"
    by (cases "deferRender f pr (adaptiveRenderer s, process s)")
  from deferRender_notified [OF p] assms show ?thesis
    by (simp add: DeferRender on_renderer_def p delays_counted_def delays_logged_def)
next
  case (ExecuteRender f)
  obtain r a' w' where p: "executeRender f (adaptiveRenderer s, process s) = (r, a', w')"
    by (cases "executeRender f (adaptiveRenderer s, process s)")
  from executeRender_frame(9) [OF p] assms show ?thesis
    by (simp add: ExecuteRender on_renderer_def p delays_counted_def delays_logged_def)
next
  case FlushDeferred
  obtain r a' w' where p: "flushDeferred (adaptiveRenderer s, process s) = (r, a', w')"
    by (cases "flushDeferred (adaptiveRenderer s, process s)")
  from flushDeferred_notified [OF p] assms show ?thesis
    by (simp add: FlushDeferred on_renderer_def p delays_counted_def delays_logged_def)
next
  case (Fire h)
  with assms show ?thesis by (simp add: fire_delays)
qed

lemma run_delays:
  "delays_counted s \<Longrightarrow> ResetMetrics \<notin> set es \<Longrightarrow> delays_counted (run es s)"
proof (induction es arbitrary: s)
  case Nil
  then show ?case by simp
next
  case (Cons e es)
  from Cons.prems have "e \<noteq> ResetMetrics" "ResetMetrics \<notin> set es" by auto
  with Cons.prems(1) Cons.IH [of "step e s"] show ?case by (simp add: step_delays)
qed

lemma start_delays: "delays_counted (start bo ro clk)"
  by (simp add: start_def delays_counted_def delays_logged_def InputBuffer_constructor_def
      zero_metrics_def new_world_def Date_now_def)

lemma maxDelay_is_maximum_of_delay_events:
  assumes "ResetMetrics \<notin> set es"
  shows "(let s = run es (start bo ro clk); m = metrics (inputBuffer s)
          in delayEvents m = length (notified (process s))
             \<and> maxDelay m = foldl max 0 (map info_delay (notified (process s))))"
  using run_delays [OF start_delays assms, of bo ro clk]
  by (simp add: delays_counted_def delays_logged_def Let_def)

section \<open>C5: configuration values\<close>

text \<open>
  Claim C5 fails: with negative thresholds both constructors complete and the objects
  hold the negative values.
\<close>

theorem invalid_configuration_is_stored:
  "(case new_InputBuffer
           (Given \<lparr>opt_delayThresholdMs = Given (- 1), opt_typingModeDelayMs = Given (- 1)\<rparr>)
           (new_world (\<lambda>k. 0)) of
      (Inl e, w) \<Rightarrow> False
    | (Inr b, w) \<Rightarrow> delayThresholdMs b = - 1 \<and> typingModeDelayMs b = - 1)
   \<and> (case new_AdaptiveRenderer
           (Given \<lparr>opt_idleThresholdMs = Given (- 1), opt_maxDeferMs = Given (- 1),
                   opt_minRenderIntervalMs = Undefined\<rparr>) of
      Inl e \<Rightarrow> False
    | Inr a \<Rightarrow> idleThresholdMs a = - 1 \<and> maxDeferMs a = - 1)"
  by (simp add: new_InputBuffer_def new_AdaptiveRenderer_def buffer_defs renderer_defs)

text \<open>
  Claim C5, amended. When the options argument is an object, both constructors complete:
  a property that is a number, negative or not, is stored as it is, and a property that
  is absent, \<open>undefined\<close> or \<open>null\<close> takes its default (50, 100, 50, 200 and 100
  milliseconds). When the argument is left out they complete with all the defaults. The
  one construction that throws is that with the argument \<open>null\<close>: a \<open>TypeError\<close> from
  reading a property of \<open>null\<close>, which looks at no value.
\<close>

theorem constructors_store_configuration:
  "(\<exists>b w'. new_InputBuffer (Given bo) w = (Inr b, w')
       \<and> delayThresholdMs b =
           (case opt_delayThresholdMs bo of Undefined \<Rightarrow> 50 | Null \<Rightarrow> 50 | Given v \<Rightarrow> v)
       \<and> typingModeDelayMs b =
           (case opt_typingModeDelayMs bo of Undefined \<Rightarrow> 100 | Null \<Rightarrow> 100 | Given v \<Rightarrow> v))
   \<and> (\<exists>b w'. new_InputBuffer Undefined w = (Inr b, w')
       \<and> delayThresholdMs b = 50 \<and> typingModeDelayMs b = 100)
   \<and> fst (new_InputBuffer Null w) = Inl TypeError
   \<and> (\<exists>a. new_AdaptiveRenderer (Given ro) = Inr a
       \<and> idleThresholdMs a =
           (case opt_idleThresholdMs ro of Undefined \<Rightarrow> 50 | Null \<Rightarrow> 50 | Given v \<Rightarrow> v)
       \<and> maxDeferMs a =
           (case opt_maxDeferMs ro of Undefined \<Rightarrow> 200 | Null \<Rightarrow> 200 | Given v \<Rightarrow> v)
       \<and> minRenderIntervalMs a =
           (case opt_minRenderIntervalMs ro of Undefined \<Rightarrow> 100 | Null \<Rightarrow> 100 | Given v \<Rightarrow> v))
   \<and> (\<exists>a. new_AdaptiveRenderer Undefined = Inr a
       \<and> idleThresholdMs a = 50 \<and> maxDeferMs a = 200 \<and> minRenderIntervalMs a = 100)
   \<and> new_AdaptiveRenderer Null = Inl TypeError"
  by (simp add: new_InputBuffer_def new_AdaptiveRenderer_def buffer_defs renderer_defs)

text \<open>
  An object with a negative number, a \<open>null\<close> and an absent property; the argument left
  out; the argument \<open>null\<close>.
\<close>

theorem constructors_store_configuration_witness:
  "(case new_AdaptiveRenderer
           (Given \<lparr>opt_idleThresholdMs = Given (- 20), opt_maxDeferMs = Null,
                   opt_minRenderIntervalMs = Undefined\<rparr>) of
      Inl e \<Rightarrow> False
    | Inr a \<Rightarrow> idleThresholdMs a = - 20 \<and> maxDeferMs a = 200 \<and> minRenderIntervalMs a = 100)
   \<and> (case new_InputBuffer
           (Given \<lparr>opt_delayThresholdMs = Null, opt_typingModeDelayMs = Given 0\<rparr>)
           (new_world (\<lambda>k. 7)) of
      (Inl e, w) \<Rightarrow> False
    | (Inr b, w) \<Rightarrow> delayThresholdMs b = 50 \<and> typingModeDelayMs b = 0
                     \<and> lastProcessTime b = 7 \<and> reads w = 1)
   \<and> (case new_InputBuffer Undefined (new_world (\<lambda>k. 7)) of
      (Inl e, w) \<Rightarrow> False
    | (Inr b, w) \<Rightarrow> delayThresholdMs b = 50 \<and> typingModeDelayMs b = 100)
   \<and> new_InputBuffer Null (new_world (\<lambda>k. 7)) = (Inl TypeError, snd (Date_now (new_world (\<lambda>k. 7))))
   \<and> new_AdaptiveRenderer Null = Inl TypeError"
  using constructors_store_configuration
    [of "\<lparr>opt_delayThresholdMs = Null, opt_typingModeDelayMs = Given 0\<rparr>"
        "new_world (\<lambda>k. 7)"
        "\<lparr>opt_idleThresholdMs = Given (- 20), opt_maxDeferMs = Null,
          opt_minRenderIntervalMs = Undefined\<rparr>"]
  by (simp add: new_InputBuffer_def new_AdaptiveRenderer_def buffer_defs renderer_defs)

section \<open>C6: render metrics on every exit\<close>

text \<open>
  Claim C6. Whether the render function returns or throws, \<open>executeRender\<close> ends with
  \<open>totalRenders\<close> and \<open>immediateRenders\<close> incremented, \<open>maxRenderTime\<close> raised to the
  measured duration if that is larger, \<open>avgRenderTime\<close> updated by the running-average
  recurrence and \<open>lastRenderTime\<close> set; the duration is the difference of the clock
  readings around the call. Its completion is that of the render function: the exception,
  if there is one, reaches the caller with the metrics already updated.
\<close>

theorem executeRender_updates_metrics_and_rethrows:
  "(let (r, a', w') = executeRender f (a, w);
        duration = clock w (Suc (reads w)) - clock w (reads w);
        m = metricsR a; m' = metricsR a'
    in r = (if fn_throws f then Some (Thrown (fn_id f)) else None)
       \<and> rendered w' = rendered w @ [fn_id f]
       \<and> totalRenders m' = totalRenders m + 1
       \<and> immediateRenders m' = immediateRenders m + 1
       \<and> deferredRenders m' = deferredRenders m
       \<and> maxRenderTime m' = max (maxRenderTime m) duration
       \<and> avgRenderTime m' =
           (avgRenderTime m * of_nat (totalRenders m' - 1) + of_int duration)
           / of_nat (totalRenders m')
       \<and> lastRenderTime a' = clock w (Suc (Suc (reads w))))"
  by (simp add: renderer_defs Date_now_def Let_def)

text \<open>
  A render function that throws, on a new renderer, with clock readings 10, 17 and 18
  around and after the call: the exception is returned and the metrics hold the run of
  7 milliseconds.
\<close>

theorem executeRender_updates_metrics_and_rethrows_witness:
  "(let (r, a', w') =
      executeRender \<lparr>fn_id = 5, fn_throws = True\<rparr>
        (AdaptiveRenderer_constructor
           \<lparr>opt_idleThresholdMs = Undefined, opt_maxDeferMs = Undefined, opt_minRenderIntervalMs = Undefined\<rparr>,
         new_world (\<lambda>k. if k = 0 then 10 else if k = 1 then 17 else 18))
    in r = Some (Thrown 5) \<and> rendered w' = [5]
       \<and> metricsR a' =
           \<lparr>totalRenders = 1, deferredRenders = 0, immediateRenders = 1,
            avgRenderTime = 7, maxRenderTime = 7\<rparr>
       \<and> lastRenderTime a' = 18)"
  using executeRender_updates_metrics_and_rethrows
    [of "\<lparr>fn_id = 5, fn_throws = True\<rparr>"
        "AdaptiveRenderer_constructor
           \<lparr>opt_idleThresholdMs = Undefined, opt_maxDeferMs = Undefined, opt_minRenderIntervalMs = Undefined\<rparr>"
        "new_world (\<lambda>k. if k = 0 then 10 else if k = 1 then 17 else 18)"]
  by (simp add: renderer_defs new_world_def Date_now_def nullish_def Let_def)

section \<open>C7: the averages of the buffer\<close>

text \<open>
  Claim C7. The average queue time is guarded by the length of the queue, and
  \<open>avgProcessingTime\<close> by \<open>|| 0\<close>, which turns the \<open>NaN\<close> of \<open>0 / 0\<close> into 0. The guard
  misses the other quotient by zero: on a new buffer (\<open>totalInputs = 0\<close>), a \<open>flush()\<close>
  during which the clock moves from 1000 to 1001 leaves \<open>totalProcessingTime = 1\<close> and
  \<open>avgProcessingTime = 1 / 0\<close>, which is \<open>Infinity\<close> and not 0.
\<close>

theorem flush_avgProcessingTime_infinite:
  "(let (r, b, w) =
      flush (InputBuffer_constructor \<lparr>opt_delayThresholdMs = Undefined, opt_typingModeDelayMs = Undefined\<rparr>
               (new_world (\<lambda>k. if k < 2 then 1000 else 1001)))
    in totalInputs (metrics b) = 0 \<and> totalProcessingTime (metrics b) = 1
       \<and> avgProcessingTime (metrics b) = PosInfinity \<and> avgQueueTime r = Finite 0)"
  by (simp add: buffer_defs js_div_def js_or_zero_def Let_def)

text \<open>What does hold of the two averages, in every state and for every clock.\<close>

lemma js_or_zero_not_NaN: "js_or_zero v \<noteq> NaN"
  by (cases v) (simp_all add: js_or_zero_def)

lemma flush_avgProcessingTime_not_NaN:
  "avgProcessingTime (metrics (fst (snd (flush (b, w))))) \<noteq> NaN"
  by (simp add: flush_def Let_def js_or_zero_not_NaN split: prod.splits)

lemma flush_empty_avgQueueTime: "buffer b = [] \<Longrightarrow> avgQueueTime (fst (flush (b, w))) = Finite 0"
  by (simp add: flush_def Let_def split: prod.splits)

lemma flush_avgQueueTime_not_NaN: "avgQueueTime (fst (flush (b, w))) \<noteq> NaN"
  by (simp add: flush_def Let_def js_div_def split: prod.splits)

lemma flush_avgProcessingTime_no_time:
  "totalInputs (metrics b) = 0 \<Longrightarrow> totalProcessingTime (metrics b) = 0 \<Longrightarrow>
   clock w (Suc (reads w)) = clock w (reads w) \<Longrightarrow>
   avgProcessingTime (metrics (fst (snd (flush (b, w))))) = Finite 0"
  by (simp add: flush_def Let_def js_div_def js_or_zero_def Date_now_def onDelayDetected_def
      split: prod.splits)

section \<open>C8: pending timers\<close>

lemma push_loop_timers:
  "push_loop cs ts (b, w) = (b', w') \<Longrightarrow>
   pending w' = pending w \<and> next_handle w' = next_handle w
   \<and> typingModeTimeout b' = typingModeTimeout b"
  by (induction cs arbitrary: b w) (auto simp add: Date_now_def)

lemma push_timers:
  assumes "push d ts (b, w) = (b', w')"
  shows "pending w' =
           filter (\<lambda>t. Some (handle t) \<noteq> typingModeTimeout b) (pending w)
           @ [\<lparr>handle = next_handle w, callback = TypingModeOff, delay_ms = typingModeDelayMs b'\<rparr>]"
    and "next_handle w' = Suc (next_handle w)"
    and "typingModeTimeout b' = Some (next_handle w)"
proof -
  obtain t w0 where 0: "(case ts of None \<Rightarrow> Date_now w | Some t \<Rightarrow> (t, w)) = (t, w0)"
    by (cases "case ts of None \<Rightarrow> Date_now w | Some t \<Rightarrow> (t, w)")
  have w0: "pending w0 = pending w" "next_handle w0 = next_handle w"
    using 0 by (auto simp add: Date_now_def split: option.splits)
  obtain b1 w1 where 1: "push_loop (split_chars d) t (b, w0) = (b1, w1)"
    by (cases "push_loop (split_chars d) t (b, w0)")
  note pl = push_loop_timers [OF 1]
  have r: "(b', w') = push d ts (b, w)" using assms by simp
  show "pending w' =
           filter (\<lambda>t. Some (handle t) \<noteq> typingModeTimeout b) (pending w)
           @ [\<lparr>handle = next_handle w, callback = TypingModeOff, delay_ms = typingModeDelayMs b'\<rparr>]"
    using r pl w0
    by (cases "typingModeTimeout b")
       (auto simp add: push_def 0 1 Let_def Date_now_def setTimeout_def clearTimeout_def
         split: prod.splits)
  show "next_handle w' = Suc (next_handle w)"
    using r pl w0
    by (cases "typingModeTimeout b")
       (auto simp add: push_def 0 1 Let_def Date_now_def setTimeout_def clearTimeout_def
         split: prod.splits)
  show "typingModeTimeout b' = Some (next_handle w)"
    using r pl w0
    by (cases "typingModeTimeout b")
       (auto simp add: push_def 0 1 Let_def Date_now_def setTimeout_def clearTimeout_def
         split: prod.splits)
qed

lemma tracked_frame:
  assumes "tracked b a w" "pending w' = pending w" "next_handle w' = next_handle w"
    "typingModeTimeout b' = typingModeTimeout b" "typingTimeout a' = typingTimeout a"
    "deferredRender a' = deferredRender a"
  shows "tracked b' a' w'"
  using assms by (simp add: tracked_def)

lemma tracked_clearTimeout: "tracked b a w \<Longrightarrow> tracked b a (clearTimeout h w)"
  by (auto simp add: tracked_def clearTimeout_def distinct_map_filter)

lemma push_tracked:
  assumes "tracked b a w" "push d ts (b, w) = (b', w')"
  shows "tracked b' a w'"
  using assms(1) push_timers [OF assms(2)]
  by (auto simp add: tracked_def distinct_map_filter less_Suc_eq)

lemma pushBatch_tracked:
  "tracked (fst bw) a (snd bw) \<Longrightarrow> tracked (fst (pushBatch inputs bw)) a (snd (pushBatch inputs bw))"
proof (induction inputs arbitrary: bw)
  case Nil
  then show ?case by simp
next
  case (Cons i inputs)
  obtain d ts where i: "i = (d, ts)" by (cases i)
  obtain b w where bw: "bw = (b, w)" by (cases bw)
  obtain b' w' where p: "push d ts (b, w) = (b', w')" by (cases "push d ts (b, w)")
  have "tracked b' a w'" using push_tracked [OF _ p] Cons.prems bw by simp
  then show ?case using Cons.IH [of "(b', w')"] by (simp add: i bw p)
qed

lemma flush_timers:
  assumes "flush (b, w) = (r, b', w')"
  shows "pending w' = pending w \<and> next_handle w' = next_handle w
         \<and> typingModeTimeout b' = typingModeTimeout b"
  using assms by (auto simp add: flush_def Date_now_def onDelayDetected_def Let_def split: if_splits)

lemma onInput_timers:
  assumes "onInput (a, w) = (a', w')"
  shows "pending w' =
           filter (\<lambda>t. Some (handle t) \<noteq> typingTimeout a) (pending w)
           @ [\<lparr>handle = next_handle w, callback = IdleTimer, delay_ms = idleThresholdMs a\<rparr>]"
    and "next_handle w' = Suc (next_handle w)"
    and "typingTimeout a' = Some (next_handle w)"
    and "deferredRender a' = deferredRender a"
  using assms
  by (cases "typingTimeout a";
      auto simp add: onInput_def Let_def Date_now_def setTimeout_def clearTimeout_def)+

lemma onInput_tracked:
  assumes "tracked b a w" "onInput (a, w) = (a', w')"
  shows "tracked b a' w'"
  using assms(1) onInput_timers [OF assms(2)]
  by (auto simp add: tracked_def distinct_map_filter less_Suc_eq)

lemma deferRender_timers:
  assumes "deferRender f p (a, w) = (a', w')"
  shows "typingTimeout a' = typingTimeout a"
    and "deferredRender a = None \<Longrightarrow>
           pending w' = pending w
             @ [\<lparr>handle = next_handle w, callback = MaxDeferTimer, delay_ms = maxDeferMs a\<rparr>]
           \<and> next_handle w' = Suc (next_handle w) \<and> deferredRender a' = Some (next_handle w)"
    and "deferredRender a \<noteq> None \<Longrightarrow>
           pending w' = pending w \<and> next_handle w' = next_handle w
           \<and> deferredRender a' = deferredRender a"
  using assms
  by (auto simp add: deferRender_def Let_def Date_now_def setTimeout_def split: option.splits)

lemma deferRender_tracked:
  assumes "tracked b a w" "deferRender f p (a, w) = (a', w')"
  shows "tracked b a' w'"
proof (cases "deferredRender a")
  case None
  with assms(1) deferRender_timers(1,2) [OF assms(2)] show ?thesis
    by (auto simp add: tracked_def less_Suc_eq)
next
  case (Some h)
  with assms(1) deferRender_timers(1,3) [OF assms(2)] show ?thesis
    by (auto simp add: tracked_def)
qed

lemma executeRender_tracked:
  assumes "tracked b a w" "executeRender f (a, w) = (r, a', w')"
  shows "tracked b a' w'"
  using assms(1) executeRender_frame [OF assms(2)] by (simp add: tracked_def)

lemma flushDeferred_tracked:
  assumes "tracked b a w" "flushDeferred (a, w) = (r, a', w')"
  shows "tracked b a' w'"
  using assms(1) flushDeferred_timers [OF assms(2)]
  by (auto simp add: tracked_def distinct_map_filter)

lemma requestRender_tracked:
  assumes "tracked b a w" "requestRender f p (a, w) = (r, a', w')"
  shows "tracked b a' w'"
proof -
  obtain now w1 where n: "Date_now w = (now, w1)" by (cases "Date_now w")
  then have "pending w1 = pending w" "next_handle w1 = next_handle w"
    by (auto simp add: Date_now_def)
  with assms(1) have t1: "tracked b a w1" by (simp add: tracked_def)
  show ?thesis
  proof (cases "nullish p Normal \<noteq> High \<and> isTyping a \<and> now - lastInputTimeR a < idleThresholdMs a")
    case True
    then have "deferRender f (nullish p Normal) (a, w1) = (a', w')"
      using assms(2) by (simp add: requestRender_def n Let_def)
    from deferRender_tracked [OF t1 this] show ?thesis .
  next
    case False
    then have "executeRender f (a, w1) = (r, a', w')"
      using assms(2) by (auto simp add: requestRender_def n Let_def split: if_splits)
    from executeRender_tracked [OF t1 this] show ?thesis .
  qed
qed

lemma idleTimeout_tracked:
  assumes "tracked b a w" "idleTimeout (a, w) = (r, a', w')"
  shows "tracked b a' w'"
proof -
  have "tracked b (a\<lparr>isTyping := False\<rparr>) w" using assms(1) by (simp add: tracked_def)
  moreover have "flushDeferred (a\<lparr>isTyping := False\<rparr>, w) = (r, a', w')"
    using assms(2) by (simp add: idleTimeout_def)
  ultimately show ?thesis by (rule flushDeferred_tracked)
qed

lemma fire_tracked:
  assumes "timers_tracked s"
  shows "timers_tracked (fire h s)"
proof (cases "find (\<lambda>t. handle t = h) (pending (process s))")
  case None
  with assms show ?thesis by (simp add: fire_def)
next
  case (Some t)
  define w1 where "w1 = clearTimeout h (process s)"
  have t1: "tracked (inputBuffer s) (adaptiveRenderer s) w1"
    using assms unfolding w1_def timers_tracked_def by (rule tracked_clearTimeout)
  show ?thesis
  proof (cases "callback t")
    case TypingModeOff
    have "tracked (typingModeOff (inputBuffer s)) (adaptiveRenderer s) w1"
      using t1 by (simp add: tracked_def typingModeOff_def)
    then show ?thesis
      by (simp add: fire_def Some TypingModeOff timers_tracked_def w1_def)
  next
    case IdleTimer
    obtain r a' w' where i: "idleTimeout (adaptiveRenderer s, w1) = (r, a', w')"
      by (cases "idleTimeout (adaptiveRenderer s, w1)")
    from idleTimeout_tracked [OF t1 i] show ?thesis
      by (simp add: fire_def Some IdleTimer timers_tracked_def on_renderer_def i flip: w1_def)
  next
    case MaxDeferTimer
    obtain r a' w' where i: "flushDeferred (adaptiveRenderer s, w1) = (r, a', w')"
      by (cases "flushDeferred (adaptiveRenderer s, w1)")
    from flushDeferred_tracked [OF t1 i] show ?thesis
      by (simp add: fire_def Some MaxDeferTimer timers_tracked_def on_renderer_def i flip: w1_def)
  qed
qed

lemma step_tracked:
  assumes "timers_tracked s"
  shows "timers_tracked (step e s)"
proof (cases e)
  case (Push d ts)
  obtain b' w' where p: "push d ts (inputBuffer s, process s) = (b', w')"
    by (cases "push d ts (inputBuffer s, process s)")
  from push_tracked [OF _ p] assms show ?thesis
    by (simp add: Push on_buffer_def p timers_tracked_def)
next
  case (PushBatch inputs)
  obtain b' w' where p: "pushBatch inputs (inputBuffer s, process s) = (b', w')"
    by (cases "pushBatch inputs (inputBuffer s, process s)")
  from pushBatch_tracked [of "(inputBuffer s, process s)" "adaptiveRenderer s" inputs] assms
  show ?thesis
    by (simp add: PushBatch on_buffer_def p timers_tracked_def)
next
  case Flush
  obtain r b' w' where p: "flush (inputBuffer s, process s) = (r, b', w')"
    by (cases "flush (inputBuffer s, process s)")
  from flush_timers [OF p] assms show ?thesis
    by (simp add: Flush on_buffer_def p timers_tracked_def tracked_def)
next
  case Peek
  with assms show ?thesis by simp
next
  case ResetMetrics
  with assms show ?thesis by (simp add: timers_tracked_def tracked_def resetMetrics_def)
next
  case OnInput
  obtain a' w' where p: "onInput (adaptiveRenderer s, process s) = (a', w')"
    by (cases "onInput (adaptiveRenderer s, process s)")
  from onInput_tracked [OF _ p] assms show ?thesis
    by (simp add: OnInput on_renderer_def p timers_tracked_def)
next
  case (RequestRender f pr)
  obtain r a' w' where p: "requestRender f pr (adaptiveRenderer s, process s) = (r, a', w')"
    by (cases "requestRender f pr (adaptiveRenderer s, process s)")
  from requestRender_tracked [OF _ p] assms show ?thesis
    by (simp add: RequestRender on_renderer_def p timers_tracked_def)
next
  case (DeferRender f pr)
  obtain a' w' where p: "deferRender f pr (adaptiveRenderer s, process s) = (a', w')"
    by (cases "deferRender f pr (adaptiveRenderer s, process s)")
  from deferRender_tracked [OF _ p] assms show ?thesis
    by (simp add: DeferRender on_renderer_def p timers_tracked_def)
next
  case (ExecuteRender f)
  obtain r a' w' where p: "executeRender f (adaptiveRenderer s, process s) = (r, a', w')"
    by (cases "executeRender f (adaptiveRenderer s, process s)")
  from executeRender_tracked [OF _ p] assms show ?thesis
    by (simp add: ExecuteRender on_renderer_def p timers_tracked_def)
next
  case FlushDeferred
  obtain r a' w' where p: "flushDeferred (adaptiveRenderer s, process s) = (r, a', w')"
    by (cases "flushDeferred (adaptiveRenderer s, process s)")
  from flushDeferred_tracked [OF _ p] assms show ?thesis
    by (simp add: FlushDeferred on_renderer_def p timers_tracked_def)
next
  case (Fire h)
  with assms show ?thesis by (simp add: fire_tracked)
qed

lemma run_tracked: "timers_tracked s \<Longrightarrow> timers_tracked (run es s)"
  by (induction es arbitrary: s) (simp_all add: step_tracked)

lemma start_tracked: "timers_tracked (start bo ro clk)"
  by (simp add: start_def timers_tracked_def tracked_def InputBuffer_constructor_def
      new_world_def Date_now_def)

lemma same_handle_at_most_one:
  "distinct (map handle ts) \<Longrightarrow> \<forall>t\<in>set ts. P t \<longrightarrow> handle t = h \<Longrightarrow>
   length (filter P ts) \<le> 1"
proof (induction ts)
  case Nil
  show ?case by simp
next
  case (Cons t ts)
  show ?case
  proof (cases "P t")
    case True
    have "filter P ts = []"
    proof (rule ccontr)
      assume "filter P ts \<noteq> []"
      then obtain u where u: "u \<in> set ts" "P u"
        by (auto simp add: filter_empty_conv)
      with Cons.prems True have "handle u = handle t" by simp
      moreover have "handle t \<notin> handle ` set ts" using Cons.prems(1) by simp
      ultimately show False using u(1) by (metis imageI)
    qed
    with True show ?thesis by simp
  next
    case False
    with Cons show ?thesis by simp
  qed
qed

lemma tracked_at_most_one: "tracked b a w \<Longrightarrow> pending_of k w \<le> 1"
proof (cases k)
  case TypingModeOff
  assume "tracked b a w"
  then show ?thesis
    unfolding pending_of_def TypingModeOff tracked_def
    using same_handle_at_most_one
      [of "pending w" "\<lambda>t. callback t = TypingModeOff" "the (typingModeTimeout b)"]
    by auto
next
  case IdleTimer
  assume "tracked b a w"
  then show ?thesis
    unfolding pending_of_def IdleTimer tracked_def
    using same_handle_at_most_one
      [of "pending w" "\<lambda>t. callback t = IdleTimer" "the (typingTimeout a)"]
    by auto
next
  case MaxDeferTimer
  assume "tracked b a w"
  then show ?thesis
    unfolding pending_of_def MaxDeferTimer tracked_def
    using same_handle_at_most_one
      [of "pending w" "\<lambda>t. callback t = MaxDeferTimer" "the (deferredRender a)"]
    by auto
qed

lemma push_one_pending:
  assumes "tracked b a w" "push d ts (b, w) = (b', w')"
  shows "pending_of TypingModeOff w' = 1"
proof -
  have "filter (\<lambda>t. callback t = TypingModeOff)
          (filter (\<lambda>t. Some (handle t) \<noteq> typingModeTimeout b) (pending w)) = []"
    using assms(1) by (auto simp add: tracked_def filter_empty_conv)
  then show ?thesis
    using push_timers(1) [OF assms(2)] by (simp add: pending_of_def)
qed

lemma onInput_one_pending:
  assumes "tracked b a w" "onInput (a, w) = (a', w')"
  shows "pending_of IdleTimer w' = 1"
proof -
  have "filter (\<lambda>t. callback t = IdleTimer)
          (filter (\<lambda>t. Some (handle t) \<noteq> typingTimeout a) (pending w)) = []"
    using assms(1) by (auto simp add: tracked_def filter_empty_conv)
  then show ?thesis
    using onInput_timers(1) [OF assms(2)] by (simp add: pending_of_def)
qed

lemma flushDeferred_none_pending:
  assumes "tracked b a w" "flushDeferred (a, w) = (r, a', w')"
  shows "pending_of MaxDeferTimer w' = 0"
proof -
  have "filter (\<lambda>t. callback t = MaxDeferTimer)
          (filter (\<lambda>t. Some (handle t) \<noteq> deferredRender a) (pending w)) = []"
    using assms(1) by (auto simp add: tracked_def filter_empty_conv)
  then show ?thesis
    using flushDeferred_timers(1) [OF assms(2)] by (simp add: pending_of_def)
qed

lemma deferRender_keeps_pending:
  assumes "tracked b a w" "pending_of MaxDeferTimer w = 1" "deferRender f p (a, w) = (a', w')"
  shows "pending w' = pending w"
proof -
  from assms(2) have "filter (\<lambda>t. callback t = MaxDeferTimer) (pending w) \<noteq> []"
    by (auto simp add: pending_of_def)
  then obtain t where "t \<in> set (pending w)" "callback t = MaxDeferTimer"
    by (auto simp add: filter_empty_conv)
  with assms(1) have "deferredRender a \<noteq> None" by (auto simp add: tracked_def)
  from deferRender_timers(3) [OF assms(3) this] show ?thesis by simp
qed

text \<open>
  Claim C8. In every state that the process reaches from the two constructors by calls
  of the methods and firings of timers, at most one timer of each of the three kinds is
  pending. After a \<open>push\<close> exactly one typing-mode-off timer is pending and after an
  \<open>onInput\<close> exactly one idle timer (the previous one is cleared first); while a
  max-defer timer is pending \<open>deferRender\<close> arms none; after \<open>flushDeferred\<close> no
  max-defer timer is pending.
\<close>

theorem at_most_one_pending_timer_of_each_kind:
  "(let s = run es (start bo ro clk)
    in pending_of k (process s) \<le> 1
       \<and> pending_of TypingModeOff (process (step (Push d ts) s)) = 1
       \<and> pending_of IdleTimer (process (step OnInput s)) = 1
       \<and> (pending_of MaxDeferTimer (process s) = 1 \<longrightarrow>
            pending (process (step (DeferRender f p) s)) = pending (process s))
       \<and> pending_of MaxDeferTimer (process (step FlushDeferred s)) = 0)"
proof -
  define s where "s = run es (start bo ro clk)"
  have t: "tracked (inputBuffer s) (adaptiveRenderer s) (process s)"
    using run_tracked [OF start_tracked, of es bo ro clk]
    by (simp add: timers_tracked_def s_def)
  obtain b1 w1 where 1: "push d ts (inputBuffer s, process s) = (b1, w1)"
    by (cases "push d ts (inputBuffer s, process s)")
  obtain a2 w2 where 2: "onInput (adaptiveRenderer s, process s) = (a2, w2)"
    by (cases "onInput (adaptiveRenderer s, process s)")
  obtain a3 w3 where 3: "deferRender f p (adaptiveRenderer s, process s) = (a3, w3)"
    by (cases "deferRender f p (adaptiveRenderer s, process s)")
  obtain r4 a4 w4 where 4: "flushDeferred (adaptiveRenderer s, process s) = (r4, a4, w4)"
    by (cases "flushDeferred (adaptiveRenderer s, process s)")
  have c1: "pending_of k (process s) \<le> 1" using t by (rule tracked_at_most_one)
  have c2: "pending_of TypingModeOff (process (step (Push d ts) s)) = 1"
    using push_one_pending [OF t 1] by (simp add: on_buffer_def 1)
  have c3: "pending_of IdleTimer (process (step OnInput s)) = 1"
    using onInput_one_pending [OF t 2] by (simp add: on_renderer_def 2)
  have c4: "pending_of MaxDeferTimer (process s) = 1 \<longrightarrow>
            pending (process (step (DeferRender f p) s)) = pending (process s)"
    using deferRender_keeps_pending [OF t _ 3] by (simp add: on_renderer_def 3)
  have c5: "pending_of MaxDeferTimer (process (step FlushDeferred s)) = 0"
    using flushDeferred_none_pending [OF t 4] by (simp add: on_renderer_def 4)
  show ?thesis
    unfolding Let_def s_def [symmetric]
    by (intro conjI) (fact c1 c2 c3 c4 c5)+
qed

text \<open>
  A run that arms one timer of each kind; then \<open>deferRender\<close> arms no second max-defer
  timer, \<open>push\<close> and \<open>onInput\<close> replace theirs, and \<open>flushDeferred\<close> clears the
  max-defer timer.
\<close>

theorem at_most_one_pending_timer_of_each_kind_witness:
  "(let s = run [Push (Str ''a'') None, OnInput,
                 RequestRender \<lparr>fn_id = 1, fn_throws = False\<rparr> Undefined]
              (start \<lparr>opt_delayThresholdMs = Undefined, opt_typingModeDelayMs = Undefined\<rparr>
                 \<lparr>opt_idleThresholdMs = Undefined, opt_maxDeferMs = Undefined,
                  opt_minRenderIntervalMs = Undefined\<rparr> (\<lambda>k. 0))
    in map (\<lambda>t. (handle t, callback t)) (pending (process s))
         = [(1, TypingModeOff), (2, IdleTimer), (3, MaxDeferTimer)]
       \<and> pending_of MaxDeferTimer (process s) = 1
       \<and> pending (process (step (DeferRender \<lparr>fn_id = 2, fn_throws = False\<rparr> Low) s))
           = pending (process s)
       \<and> map (\<lambda>t. (handle t, callback t)) (pending (process (step (Push (Str ''b'') None) s)))
         = [(2, IdleTimer), (3, MaxDeferTimer), (4, TypingModeOff)]
       \<and> map (\<lambda>t. (handle t, callback t)) (pending (process (step OnInput s)))
         = [(1, TypingModeOff), (3, MaxDeferTimer), (4, IdleTimer)]
       \<and> map (\<lambda>t. (handle t, callback t)) (pending (process (step FlushDeferred s)))
         = [(1, TypingModeOff), (2, IdleTimer)])"
  using at_most_one_pending_timer_of_each_kind
    [where k = MaxDeferTimer
       and es = "[Push (Str ''a'') None, OnInput,
                  RequestRender \<lparr>fn_id = 1, fn_throws = False\<rparr> Undefined]"
       and bo = "\<lparr>opt_delayThresholdMs = Undefined, opt_typingModeDelayMs = Undefined\<rparr>"
       and ro = "\<lparr>opt_idleThresholdMs = Undefined, opt_maxDeferMs = Undefined,
                  opt_minRenderIntervalMs = Undefined\<rparr>"
       and clk = "\<lambda>k. 0" and d = "Str ''b''" and ts = None
       and f = "\<lparr>fn_id = 2, fn_throws = False\<rparr>" and p = Low]
  by (simp add: start_def on_buffer_def on_renderer_def pending_of_def
      InputBuffer_constructor_def AdaptiveRenderer_constructor_def push_def flush_def
      split_chars_def zero_metrics_def
      executeRender_def call_renderFn_def deferRender_def requestRender_def flushDeferred_def
      onInput_def new_world_def Date_now_def setTimeout_def clearTimeout_def
      nullish_def compareEntries_def priorityOrder_def Let_def)

section \<open>C9: queue time after a wait\<close>

text \<open>
  Claim C9. Scenario: a buffer is constructed, \<open>"abc"\<close> is pushed with the default arrival
  timestamp, \<open>d\<close> milliseconds pass (50 in the claim) and \<open>flush()\<close> is called. The claim
  expects an \<open>avgQueueTime\<close> of about the waiting time. The code stamps both
  \<open>receivedAt\<close> and \<open>queuedAt\<close> inside \<open>push\<close>, so with the six clock readings up to
  the end of \<open>push\<close> in one millisecond \<open>t0\<close> and the later ones at \<open>t0 + d\<close>, the
  flush returns content \<open>abc\<close>, count 3 and delay \<open>d\<close>, but \<open>avgQueueTime\<close> 0.
\<close>

theorem flush_after_wait_avgQueueTime_zero:
  "fst (flush (push (Str ''abc'') None
         (InputBuffer_constructor \<lparr>opt_delayThresholdMs = Undefined, opt_typingModeDelayMs = Undefined\<rparr>
            (new_world (\<lambda>k. if k < 6 then t0 else t0 + d)))))
   = \<lparr>chars = ''abc'', delay = d, avgQueueTime = Finite 0, count = 3\<rparr>"
  by (simp add: buffer_defs js_div_def Let_def)

text \<open>
  For any clock, the average of that scenario is made of the readings taken inside
  \<open>push\<close> (the second to the fifth of the process) and of none taken later.
\<close>

lemma flush_after_push_abc:
  "fst (flush (push (Str ''abc'') None (InputBuffer_constructor opts (new_world clk))))
   = \<lparr>chars = ''abc'', delay = clk 6 - clk 0,
       avgQueueTime = Finite (of_int ((clk 2 - clk 1) + (clk 3 - clk 1) + (clk 4 - clk 1)) / 3),
       count = 3\<rparr>"
  by (simp add: buffer_defs js_div_def Let_def eval_nat_numeral)

section \<open>C10: the render counters\<close>

















end
